theory Spec2Isabelle
  imports Complex_Main "HOL-Library.Word"
begin

section \<open>JavaScript strings\<close>

text \<open>
  A JavaScript string is a sequence of 16-bit code units.  String literals of the
  source are written with \<open>js\<close> applied to their ASCII text; the one non-ASCII
  literal of the source (the label of manual nodes) is given by its code units.
\<close>

type_synonym jsstring = "16 word list"

definition jc :: "char \<Rightarrow> 16 word" where
  "jc c = of_nat (of_char c)"

definition js :: "string \<Rightarrow> jsstring" where
  "js s = map jc s"

text \<open>\<open>String.prototype.startsWith\<close>.\<close>

fun startsWith :: "'a list \<Rightarrow> 'a list \<Rightarrow> bool" where
  "startsWith s [] = True"
| "startsWith [] (p # ps) = False"
| "startsWith (c # cs) (p # ps) = (c = p \<and> startsWith cs ps)"

text \<open>\<open>String.prototype.split\<close> with a one-character separator: never the empty list.\<close>

fun split :: "'a \<Rightarrow> 'a list \<Rightarrow> 'a list list" where
  "split sep [] = [[]]"
| "split sep (c # cs) =
     (if c = sep then [] # split sep cs
      else (case split sep cs of [] \<Rightarrow> [[c]] | x # xs \<Rightarrow> (c # x) # xs))"

text \<open>\<open>Array.prototype.join\<close>.\<close>

fun join :: "'a list \<Rightarrow> 'a list list \<Rightarrow> 'a list" where
  "join sep [] = []"
| "join sep [x] = x"
| "join sep (x # y # ys) = x @ sep @ join sep (y # ys)"

text \<open>
  The code units that \<open>String.prototype.trim\<close> strips and that \<open>\s\<close> matches:
  WhiteSpace and LineTerminator of ECMAScript.
\<close>

definition is_ws :: "16 word \<Rightarrow> bool" where
  "is_ws c \<longleftrightarrow>
     c = 0x9 \<or> c = 0xA \<or> c = 0xB \<or> c = 0xC \<or> c = 0xD \<or> c = 0x20 \<or> c = 0xA0 \<or>
     c = 0x1680 \<or> (0x2000 \<le> c \<and> c \<le> 0x200A) \<or> c = 0x2028 \<or> c = 0x2029 \<or>
     c = 0x202F \<or> c = 0x205F \<or> c = 0x3000 \<or> c = 0xFEFF"

definition trim :: "jsstring \<Rightarrow> jsstring" where
  "trim s = rev (dropWhile is_ws (rev (dropWhile is_ws s)))"

section \<open>Scope resolution of a subscription request\<close>

record misub =
  misub_id :: jsstring
  url :: jsstring
  name :: jsstring
  enabled :: bool
  exclude :: jsstring

record profile =
  profile_id :: jsstring
  customId :: "jsstring option"
  profile_name :: jsstring
  profile_enabled :: bool
  subscriptions :: "jsstring list"
  manualNodes :: "jsstring list"
  profile_subConverter :: jsstring
  profile_subConfig :: jsstring

record config =
  FileName :: jsstring
  mytoken :: jsstring
  profileToken :: jsstring
  subConverter :: jsstring
  subConfig :: jsstring
  prependSubName :: bool

text \<open>The early responses of \<open>handleMisubRequest\<close> during scope resolution.\<close>

datatype early_response = InvalidProfileToken | ProfileNotFound | InvalidToken

fun status :: "early_response \<Rightarrow> nat" where
  "status InvalidProfileToken = 403"
| "status ProfileNotFound = 404"
| "status InvalidToken = 403"

record scope =
  targetMisubs :: "misub list"
  subName :: jsstring
  effectiveSubConverter :: jsstring
  effectiveSubConfig :: jsstring

text \<open>
  \<open>url.pathname.replace(/^\/sub\//, '/').split('/').filter(Boolean)\<close>: a leading
  \<open>/sub/\<close> becomes \<open>/\<close>, and the empty segments are dropped.
\<close>

definition pathSegments :: "jsstring \<Rightarrow> jsstring list" where
  "pathSegments pathname =
     filter (\<lambda>seg. seg \<noteq> [])
       (split (jc CHR ''/'') (if startsWith pathname (js ''/sub/'') then drop 4 pathname else pathname))"

text \<open>
  The token and the profile identifier: the first two path segments, or the
  \<open>token\<close> query parameter (\<open>None\<close> when absent) when the path has no segment.
\<close>

definition request_token :: "jsstring \<Rightarrow> jsstring option \<Rightarrow> jsstring option" where
  "request_token pathname query_token =
     (case pathSegments pathname of [] \<Rightarrow> query_token | t # _ \<Rightarrow> Some t)"

definition profileIdentifier :: "jsstring \<Rightarrow> jsstring option" where
  "profileIdentifier pathname =
     (case pathSegments pathname of _ # p # _ \<Rightarrow> Some p | _ \<Rightarrow> None)"

text \<open>A token is falsy when it is \<open>null\<close> or the empty string.\<close>

definition falsy_token :: "jsstring option \<Rightarrow> bool" where
  "falsy_token t = (case t of None \<Rightarrow> True | Some s \<Rightarrow> s = [])"

text \<open>The predicate of \<open>allProfiles.find\<close>.\<close>

definition profile_matches :: "jsstring \<Rightarrow> profile \<Rightarrow> bool" where
  "profile_matches ident p \<longleftrightarrow>
     (case customId p of None \<Rightarrow> False | Some c \<Rightarrow> c \<noteq> [] \<and> c = ident) \<or> profile_id p = ident"

text \<open>A profile's or the global value: \<open>x && x.trim() !== '' ? x : y\<close>.\<close>

definition override :: "jsstring \<Rightarrow> jsstring \<Rightarrow> jsstring" where
  "override x y = (if x \<noteq> [] \<and> trim x \<noteq> [] then x else y)"

definition resolve_scope ::
  "config \<Rightarrow> profile list \<Rightarrow> misub list \<Rightarrow> jsstring \<Rightarrow> jsstring option \<Rightarrow> early_response + scope"
where
  "resolve_scope cfg allProfiles allMisubs pathname query_token =
     (let token = request_token pathname query_token in
      case profileIdentifier pathname of
        Some ident \<Rightarrow>
          if falsy_token token \<or> token \<noteq> Some (profileToken cfg) then Inl InvalidProfileToken
          else
            (case find (profile_matches ident) allProfiles of
               Some p \<Rightarrow>
                 if profile_enabled p then
                   Inr \<lparr> targetMisubs =
                           filter (\<lambda>item.
                             if startsWith (url item) (js ''http'')
                             then enabled item \<and> misub_id item \<in> set (subscriptions p)
                             else enabled item \<and> misub_id item \<in> set (manualNodes p)) allMisubs,
                         subName = profile_name p,
                         effectiveSubConverter = override (profile_subConverter p) (subConverter cfg),
                         effectiveSubConfig = override (profile_subConfig p) (subConfig cfg) \<rparr>
                 else Inl ProfileNotFound
             | None \<Rightarrow> Inl ProfileNotFound)
      | None \<Rightarrow>
          if falsy_token token \<or> token \<noteq> Some (mytoken cfg) then Inl InvalidToken
          else
            Inr \<lparr> targetMisubs = filter enabled allMisubs,
                  subName = FileName cfg,
                  effectiveSubConverter = subConverter cfg,
                  effectiveSubConfig = subConfig cfg \<rparr>)"


section \<open>The JavaScript runtime\<close>

text \<open>
  The built-in functions that the source calls are parameters of the model.  Each one that
  can throw returns a sum, \<open>Inl\<close> carrying the exception.
\<close>

datatype js_error = URIError | SyntaxError | TypeError | InvalidCharacterError

text \<open>
  The values that \<open>JSON.parse\<close> returns.  An object is the list of its properties in
  enumeration order.  Of a number the source observes only whether it is zero; the two
  zeros are one value here and so are the two infinities (an overflowing literal).
\<close>

datatype number = Finite rat | Infinity

datatype json =
    JNull
  | JBool bool
  | JNumber number
  | JString jsstring
  | JArray "json list"
  | JObject "(jsstring \<times> json) list"

record runtime =
  toLowerCase :: "jsstring \<Rightarrow> jsstring"
  atob :: "jsstring \<Rightarrow> js_error + jsstring"
  btoa :: "jsstring \<Rightarrow> js_error + jsstring"
  TextDecoder_decode :: "8 word list \<Rightarrow> jsstring"
  encodeURIComponent :: "jsstring \<Rightarrow> js_error + jsstring"
  decodeURIComponent :: "jsstring \<Rightarrow> js_error + jsstring"
  unescape :: "jsstring \<Rightarrow> jsstring"
  JSON_parse :: "jsstring \<Rightarrow> js_error + json"
  JSON_stringify :: "json \<Rightarrow> jsstring"
  RegExp_i :: "jsstring \<Rightarrow> js_error + (jsstring \<Rightarrow> bool)"

text \<open>Sequencing of steps that can throw, and a \<open>map\<close> whose callback can throw.\<close>

definition and_then :: "'e + 'a \<Rightarrow> ('a \<Rightarrow> 'e + 'b) \<Rightarrow> 'e + 'b" where
  "and_then m f = (case m of Inl e \<Rightarrow> Inl e | Inr x \<Rightarrow> f x)"

fun map_throwing :: "('a \<Rightarrow> 'e + 'b) \<Rightarrow> 'a list \<Rightarrow> 'e + 'b list" where
  "map_throwing f [] = Inr []"
| "map_throwing f (x # xs) =
     and_then (f x) (\<lambda>y. and_then (map_throwing f xs) (\<lambda>ys. Inr (y # ys)))"

text \<open>\<open>String.prototype.lastIndexOf\<close> of one character; \<open>None\<close> is the result \<open>-1\<close>.\<close>

fun lastIndexOf :: "'a \<Rightarrow> 'a list \<Rightarrow> nat option" where
  "lastIndexOf c [] = None"
| "lastIndexOf c (x # xs) =
     (case lastIndexOf c xs of
        Some i \<Rightarrow> Some (Suc i)
      | None \<Rightarrow> if x = c then Some 0 else None)"

text \<open>The bytes of a binary string: \<open>bytes[i] = binaryString.charCodeAt(i)\<close> on a \<open>Uint8Array\<close>.\<close>

definition bytes_of :: "jsstring \<Rightarrow> 8 word list" where
  "bytes_of binaryString = map ucast binaryString"

section \<open>Node names\<close>

text \<open>Truthiness of a value, and of a possibly undefined property.\<close>

fun truthy :: "json \<Rightarrow> bool" where
  "truthy JNull = False"
| "truthy (JBool b) = b"
| "truthy (JNumber n) = (n \<noteq> Finite 0)"
| "truthy (JString s) = (s \<noteq> [])"
| "truthy (JArray xs) = True"
| "truthy (JObject kvs) = True"

text \<open>
  \<open>nodeConfig.ps\<close>: a \<open>TypeError\<close> on \<open>null\<close>, the own property of an object, and
  \<open>undefined\<close> on an array or a primitive value.
\<close>

fun get_ps :: "json \<Rightarrow> js_error + json option" where
  "get_ps JNull = Inl TypeError"
| "get_ps (JObject kvs) = Inr (map_of kvs (js ''ps''))"
| "get_ps v = Inr None"

text \<open>\<open>nodeConfig.ps || ''\<close>.\<close>

definition or_empty :: "json option \<Rightarrow> json" where
  "or_empty x = (case x of None \<Rightarrow> JString [] | Some v \<Rightarrow> if truthy v then v else JString [])"

text \<open>\<open>originalPs.startsWith(prefix)\<close>: only a string has the method.\<close>

fun ps_startsWith :: "json \<Rightarrow> jsstring \<Rightarrow> js_error + bool" where
  "ps_startsWith (JString s) prefix = Inr (startsWith s prefix)"
| "ps_startsWith v prefix = Inl TypeError"

text \<open>
  The template string \<open>`${prefix} - ${originalPs}`\<close> or the prefix alone.  It is only
  evaluated after \<open>startsWith\<close> has returned, when \<open>originalPs\<close> is a string.
\<close>

fun new_ps :: "json \<Rightarrow> jsstring \<Rightarrow> jsstring" where
  "new_ps (JString s) prefix = (if s \<noteq> [] then prefix @ js '' - '' @ s else prefix)"
| "new_ps v prefix = prefix"

text \<open>Setting a property keeps its place in the enumeration order, or appends it.\<close>

fun set_prop :: "jsstring \<Rightarrow> json \<Rightarrow> (jsstring \<times> json) list \<Rightarrow> (jsstring \<times> json) list" where
  "set_prop k v [] = [(k, v)]"
| "set_prop k v ((k', v') # kvs) = (if k' = k then (k, v) # kvs else (k', v') # set_prop k v kvs)"

text \<open>
  \<open>nodeConfig.ps = ...\<close> in module (strict) code: a \<open>TypeError\<close> on a primitive value;
  on an array it creates a property that \<open>JSON.stringify\<close> does not serialise.
\<close>

fun assign_ps :: "json \<Rightarrow> jsstring \<Rightarrow> js_error + json" where
  "assign_ps (JObject kvs) s = Inr (JObject (set_prop (js ''ps'') (JString s) kvs))"
| "assign_ps (JArray xs) s = Inr (JArray xs)"
| "assign_ps v s = Inl TypeError"

text \<open>The decoding steps shared by \<open>prependNodeName\<close> and \<open>normalizeVmessLink\<close>.\<close>

definition vmess_config :: "runtime \<Rightarrow> jsstring \<Rightarrow> js_error + json" where
  "vmess_config R link =
     (let base64Part = drop (length (js ''vmess://'')) link in
      and_then (atob R base64Part) (\<lambda>binaryString.
        let jsonString = TextDecoder_decode R (bytes_of binaryString) in
        JSON_parse R jsonString))"

text \<open>\<open>'vmess://' + btoa(unescape(encodeURIComponent(jsonString)))\<close>.\<close>

definition vmess_link :: "runtime \<Rightarrow> jsstring \<Rightarrow> js_error + jsstring" where
  "vmess_link R jsonString =
     and_then (encodeURIComponent R jsonString) (\<lambda>escaped.
       and_then (btoa R (unescape R escaped)) (\<lambda>newBase64Part.
         Inr (js ''vmess://'' @ newBase64Part)))"

definition appendToFragment :: "runtime \<Rightarrow> jsstring \<Rightarrow> jsstring \<Rightarrow> js_error + jsstring" where
  "appendToFragment R baseLink namePrefix =
     (let hashIndex = lastIndexOf (jc CHR ''#'') baseLink in
      and_then (case hashIndex of
                  Some i \<Rightarrow> decodeURIComponent R (drop (i + 1) baseLink)
                | None \<Rightarrow> Inr []) (\<lambda>originalName.
        let base = (case hashIndex of Some i \<Rightarrow> take i baseLink | None \<Rightarrow> baseLink) in
        if startsWith originalName namePrefix then Inr baseLink
        else
          let newName = (if originalName \<noteq> [] then namePrefix @ js '' - '' @ originalName
                         else namePrefix) in
          and_then (encodeURIComponent R newName) (\<lambda>encoded.
            Inr (base @ [jc CHR ''#''] @ encoded))))"

text \<open>The body of the \<open>try\<close> block of \<open>prependNodeName\<close>.\<close>

definition prepend_vmess :: "runtime \<Rightarrow> jsstring \<Rightarrow> jsstring \<Rightarrow> js_error + jsstring" where
  "prepend_vmess R link prefix =
     and_then (vmess_config R link) (\<lambda>nodeConfig.
       and_then (get_ps nodeConfig) (\<lambda>ps.
         let originalPs = or_empty ps in
         and_then (ps_startsWith originalPs prefix) (\<lambda>starts.
           and_then (if \<not> starts then assign_ps nodeConfig (new_ps originalPs prefix)
                     else Inr nodeConfig) (\<lambda>nodeConfig'.
             vmess_link R (JSON_stringify R nodeConfig')))))"

definition prependNodeName :: "runtime \<Rightarrow> jsstring \<Rightarrow> jsstring \<Rightarrow> js_error + jsstring" where
  "prependNodeName R link prefix =
     (if prefix = [] then Inr link
      else if startsWith link (js ''vmess://'') then
        (case prepend_vmess R link prefix of
           Inr newLink \<Rightarrow> Inr newLink
         | Inl e \<Rightarrow> appendToFragment R link prefix)
      else appendToFragment R link prefix)"

definition normalizeVmessLink :: "runtime \<Rightarrow> jsstring \<Rightarrow> jsstring" where
  "normalizeVmessLink R link =
     (if \<not> startsWith link (js ''vmess://'') then link
      else
        (case and_then (vmess_config R link) (\<lambda>v. vmess_link R (JSON_stringify R v)) of
           Inr newLink \<Rightarrow> newLink
         | Inl e \<Rightarrow> link))"

section \<open>Aggregation of the node list\<close>

text \<open>A JavaScript \<open>Set\<close> keeps its elements in insertion order.\<close>

definition Set_add :: "'a list \<Rightarrow> 'a \<Rightarrow> 'a list" where
  "Set_add S x = (if x \<in> set S then S else S @ [x])"

definition new_Set :: "'a list \<Rightarrow> 'a list" where
  "new_Set xs = foldl Set_add [] xs"

text \<open>\<open>/^(ss|ssr|vmess|vless|trojan|hysteria2?|hy|hy2|tuic|anytls|socks5):\/\//\<close>\<close>

definition node_schemes :: "jsstring list" where
  "node_schemes = map js [''ss'', ''ssr'', ''vmess'', ''vless'', ''trojan'', ''hysteria'',
     ''hysteria2'', ''hy'', ''hy2'', ''tuic'', ''anytls'', ''socks5'']"

definition nodeRegex :: "jsstring \<Rightarrow> bool" where
  "nodeRegex line = list_ex (\<lambda>scheme. startsWith line (scheme @ js ''://'')) node_schemes"

text \<open>\<open>/^[A-Za-z0-9+/=]+$/\<close>\<close>

definition is_base64_char :: "16 word \<Rightarrow> bool" where
  "is_base64_char c \<longleftrightarrow>
     (jc CHR ''A'' \<le> c \<and> c \<le> jc CHR ''Z'') \<or> (jc CHR ''a'' \<le> c \<and> c \<le> jc CHR ''z'') \<or>
     (jc CHR ''0'' \<le> c \<and> c \<le> jc CHR ''9'') \<or> c = jc CHR ''+'' \<or> c = jc CHR ''/'' \<or>
     c = jc CHR ''=''"

definition looks_base64 :: "jsstring \<Rightarrow> bool" where
  "looks_base64 s \<longleftrightarrow> s \<noteq> [] \<and> list_all is_base64_char s"

text \<open>The inner \<open>try\<close> block on a response body; its \<open>catch\<close> keeps the body.\<close>

definition decode_payload :: "runtime \<Rightarrow> jsstring \<Rightarrow> jsstring" where
  "decode_payload R text =
     (let cleanedText = filter (\<lambda>c. \<not> is_ws c) text in
      if length cleanedText > 20 \<and> looks_base64 cleanedText then
        (case atob R cleanedText of
           Inr binaryString \<Rightarrow> TextDecoder_decode R (bytes_of binaryString)
         | Inl e \<Rightarrow> text)
      else text)"

text \<open>\<open>text.replace(/\r\n/g, '\n')\<close>\<close>

fun replace_crlf :: "jsstring \<Rightarrow> jsstring" where
  "replace_crlf (c # d # cs) =
     (if c = 0xD \<and> d = 0xA then 0xA # replace_crlf cs else c # replace_crlf (d # cs))"
| "replace_crlf cs = cs"

text \<open>
  \<open>nodeLink.match(/^(.*?):\/\//)\<close>: the text before the first \<open>://\<close>, which the dot
  does not reach across a line terminator.
\<close>

definition is_line_terminator :: "16 word \<Rightarrow> bool" where
  "is_line_terminator c \<longleftrightarrow> c = 0xA \<or> c = 0xD \<or> c = 0x2028 \<or> c = 0x2029"

fun protocolMatch :: "jsstring \<Rightarrow> jsstring option" where
  "protocolMatch [] = None"
| "protocolMatch (c # cs) =
     (if startsWith (c # cs) (js ''://'') then Some []
      else if is_line_terminator c then None
      else map_option ((#) c) (protocolMatch cs))"

definition protocol_of :: "runtime \<Rightarrow> jsstring \<Rightarrow> jsstring" where
  "protocol_of R nodeLink =
     (case protocolMatch nodeLink of Some p \<Rightarrow> toLowerCase R p | None \<Rightarrow> [])"

text \<open>\<open>sub.exclude.trim().split('\n').map(r => r.trim()).filter(Boolean)\<close>\<close>

definition parse_rules :: "jsstring \<Rightarrow> jsstring list" where
  "parse_rules exclude_text =
     filter (\<lambda>r. r \<noteq> []) (map trim (split 0xA (trim exclude_text)))"

definition is_keep_rule :: "runtime \<Rightarrow> jsstring \<Rightarrow> bool" where
  "is_keep_rule R r = startsWith (toLowerCase R r) (js ''keep:'')"

definition is_proto_rule :: "runtime \<Rightarrow> jsstring \<Rightarrow> bool" where
  "is_proto_rule R r = startsWith (toLowerCase R r) (js ''proto:'')"

text \<open>The protocols that a \<open>proto:\<close> rule names.\<close>

definition rule_protocols :: "runtime \<Rightarrow> jsstring \<Rightarrow> jsstring list" where
  "rule_protocols R r =
     map (\<lambda>p. toLowerCase R (trim p)) (split (jc CHR '','') (drop (length (js ''proto:'')) r))"

text \<open>
  The bodies of the two \<open>forEach\<close> loops over the rules; the state is the pair of
  \<open>nameRegexParts\<close> and the set of protocols.
\<close>

definition keep_rule_step ::
  "runtime \<Rightarrow> jsstring list \<times> jsstring list \<Rightarrow> jsstring \<Rightarrow> jsstring list \<times> jsstring list" where
  "keep_rule_step R st rule =
     (let content = trim (drop (length (js ''keep:'')) rule) in
      if is_proto_rule R content
      then (fst st, foldl Set_add (snd st) (rule_protocols R content))
      else (fst st @ [content], snd st))"

definition exclude_rule_step ::
  "runtime \<Rightarrow> jsstring list \<times> jsstring list \<Rightarrow> jsstring \<Rightarrow> jsstring list \<times> jsstring list" where
  "exclude_rule_step R st rule =
     (if is_proto_rule R rule
      then (fst st, foldl Set_add (snd st) (rule_protocols R rule))
      else (fst st @ [rule], snd st))"

text \<open>\<open>nameRegexParts.length > 0 ? new RegExp(nameRegexParts.join('|'), 'i') : null\<close>\<close>

definition compile_nameRegex ::
  "runtime \<Rightarrow> jsstring list \<Rightarrow> js_error + (jsstring \<Rightarrow> bool) option" where
  "compile_nameRegex R nameRegexParts =
     (if nameRegexParts \<noteq> []
      then and_then (RegExp_i R (join (js ''|'') nameRegexParts)) (\<lambda>re. Inr (Some re))
      else Inr None)"

text \<open>
  The test of a node's name: the regex exists, the link has a \<open>#\<close>, the text after the
  last one decodes, and the regex matches the decoded name.
\<close>

definition name_matches :: "runtime \<Rightarrow> (jsstring \<Rightarrow> bool) option \<Rightarrow> jsstring \<Rightarrow> bool" where
  "name_matches R nameRegex nodeLink =
     (case nameRegex of
        None \<Rightarrow> False
      | Some re \<Rightarrow>
          (case lastIndexOf (jc CHR ''#'') nodeLink of
             None \<Rightarrow> False
           | Some hashIndex \<Rightarrow>
               (case decodeURIComponent R (drop (hashIndex + 1) nodeLink) of
                  Inr nodeName \<Rightarrow> re nodeName
                | Inl e \<Rightarrow> False)))"

definition apply_exclude :: "runtime \<Rightarrow> jsstring \<Rightarrow> jsstring list \<Rightarrow> js_error + jsstring list" where
  "apply_exclude R exclude_text validNodes =
     (if exclude_text \<noteq> [] \<and> trim exclude_text \<noteq> [] then
        let rules = parse_rules exclude_text;
            keepRules = filter (is_keep_rule R) rules in
        if keepRules \<noteq> [] then
          let st = foldl (keep_rule_step R) ([], []) keepRules;
              protocolsToKeep = snd st in
          and_then (compile_nameRegex R (fst st)) (\<lambda>nameRegex.
            Inr (filter (\<lambda>nodeLink.
                   if protocol_of R nodeLink \<in> set protocolsToKeep then True
                   else if name_matches R nameRegex nodeLink then True
                   else False) validNodes))
        else
          let st = foldl (exclude_rule_step R) ([], []) rules;
              protocolsToExclude = snd st in
          and_then (compile_nameRegex R (fst st)) (\<lambda>nameRegex.
            Inr (filter (\<lambda>nodeLink.
                   if protocol_of R nodeLink \<in> set protocolsToExclude then False
                   else if name_matches R nameRegex nodeLink then False
                   else True) validNodes))
      else Inr validNodes)"

text \<open>
  What the race of \<open>fetch\<close> against the timer gives for one source: a rejection
  (time-out, transport error, a URL that \<open>Request\<close> refuses), or a response with its
  \<open>ok\<close> flag and its text (\<open>None\<close> when reading the body fails).
\<close>

datatype fetch_outcome = Rejected | Response bool "jsstring option"

text \<open>The part of a source's \<open>try\<close> block after the body has been read.\<close>

definition sub_nodes :: "runtime \<Rightarrow> config \<Rightarrow> misub \<Rightarrow> jsstring \<Rightarrow> js_error + jsstring" where
  "sub_nodes R cfg sub text =
     (let validNodes =
            filter nodeRegex (map trim (split 0xA (replace_crlf (decode_payload R text)))) in
      and_then (apply_exclude R (exclude sub) validNodes) (\<lambda>validNodes.
        if prependSubName cfg \<and> name sub \<noteq> [] then
          and_then (map_throwing (\<lambda>node. prependNodeName R node (name sub)) validNodes)
            (\<lambda>nodes. Inr (join [0xA] nodes))
        else Inr (join [0xA] validNodes)))"

text \<open>The value of one source's promise: the outer \<open>catch\<close> turns every exception into \<open>''\<close>.\<close>

definition process_sub :: "runtime \<Rightarrow> config \<Rightarrow> misub \<Rightarrow> fetch_outcome \<Rightarrow> jsstring" where
  "process_sub R cfg sub outcome =
     (case outcome of
        Rejected \<Rightarrow> []
      | Response ok body \<Rightarrow>
          if \<not> ok then []
          else
            (case body of
               None \<Rightarrow> []
             | Some text \<Rightarrow>
                 (case sub_nodes R cfg sub text of Inr content \<Rightarrow> content | Inl e \<Rightarrow> [])))"

definition is_http :: "runtime \<Rightarrow> misub \<Rightarrow> bool" where
  "is_http R sub = startsWith (toLowerCase R (url sub)) (js ''http'')"

text \<open>The label of manual nodes, four Chinese characters in the source.\<close>

definition manual_label :: jsstring where
  "manual_label = [0x624B, 0x52A8, 0x8282, 0x70B9]"

definition manualNodesContent :: "runtime \<Rightarrow> misub list \<Rightarrow> jsstring" where
  "manualNodesContent R misubs =
     concat (map (\<lambda>sub. url sub @ [0xA]) (filter (\<lambda>sub. \<not> is_http R sub) misubs))"

definition manualNodes_lines :: "runtime \<Rightarrow> config \<Rightarrow> misub list \<Rightarrow> js_error + jsstring list" where
  "manualNodes_lines R cfg misubs =
     map_throwing (\<lambda>node. if prependSubName cfg then prependNodeName R node manual_label
                           else Inr node)
       (map (normalizeVmessLink R)
          (filter nodeRegex (map trim (split 0xA (manualNodesContent R misubs)))))"

definition processedManualNodes :: "runtime \<Rightarrow> config \<Rightarrow> misub list \<Rightarrow> js_error + jsstring" where
  "processedManualNodes R cfg misubs =
     and_then (manualNodes_lines R cfg misubs) (\<lambda>nodes. Inr (join [0xA] nodes))"

definition processedSubContents ::
  "runtime \<Rightarrow> config \<Rightarrow> (misub \<Rightarrow> fetch_outcome) \<Rightarrow> misub list \<Rightarrow> jsstring list" where
  "processedSubContents R cfg fetch misubs =
     map (\<lambda>sub. process_sub R cfg sub (fetch sub)) (filter (is_http R) misubs)"

text \<open>The array that is joined into \<open>uniqueNodesString\<close>.\<close>

definition uniqueNodes ::
  "runtime \<Rightarrow> config \<Rightarrow> (misub \<Rightarrow> fetch_outcome) \<Rightarrow> misub list \<Rightarrow> js_error + jsstring list" where
  "uniqueNodes R cfg fetch misubs =
     and_then (processedManualNodes R cfg misubs) (\<lambda>manual.
       let combinedContent = manual @ [0xA] @ join [0xA] (processedSubContents R cfg fetch misubs) in
       Inr (new_Set (filter (\<lambda>line. line \<noteq> []) (map trim (split 0xA combinedContent)))))"

definition generateCombinedNodeList ::
  "runtime \<Rightarrow> config \<Rightarrow> (misub \<Rightarrow> fetch_outcome) \<Rightarrow> misub list \<Rightarrow> jsstring \<Rightarrow> js_error + jsstring" where
  "generateCombinedNodeList R cfg fetch misubs prependedContent =
     and_then (uniqueNodes R cfg fetch misubs) (\<lambda>nodes.
       let uniqueNodesString = join [0xA] nodes in
       if prependedContent \<noteq> [] then Inr (prependedContent @ [0xA] @ uniqueNodesString)
       else Inr uniqueNodesString)"

section \<open>Notions used in the statements\<close>

text \<open>The first-seen order: each element stays at its first occurrence, its later copies go.\<close>

fun first_seen :: "'a list \<Rightarrow> 'a list" where
  "first_seen [] = []"
| "first_seen (x # xs) = x # first_seen (filter (\<lambda>y. y \<noteq> x) xs)"

text \<open>\<open>s.split('\n').map(line => line.trim()).filter(line => line)\<close>, the lines that a text
  contributes to the merge.\<close>

definition trimmed_lines :: "jsstring \<Rightarrow> jsstring list" where
  "trimmed_lines s = filter (\<lambda>line. line \<noteq> []) (map trim (split 0xA s))"

text \<open>The display name of a node line: the \<open>ps\<close> field of a \<open>vmess://\<close> link, or the decoded
  fragment of any other link.\<close>

definition display_name :: "runtime \<Rightarrow> jsstring \<Rightarrow> jsstring option" where
  "display_name R line =
     (if startsWith line (js ''vmess://'') then
        (case vmess_config R line of
           Inr v \<Rightarrow> (case get_ps v of Inr (Some (JString n)) \<Rightarrow> Some n | _ \<Rightarrow> None)
         | Inl e \<Rightarrow> None)
      else
        (case lastIndexOf (jc CHR ''#'') line of
           Some i \<Rightarrow> (case decodeURIComponent R (drop (i + 1) line) of
                        Inr n \<Rightarrow> Some n | Inl e \<Rightarrow> None)
         | None \<Rightarrow> None))"

section \<open>What the statements ask of the runtime\<close>

text \<open>
  \<open>JSON.stringify\<close> writes an infinite number as \<open>null\<close>; \<open>squash\<close> is the value that
  parsing the text of a value gives back.
\<close>

primrec squash :: "json \<Rightarrow> json" where
  "squash JNull = JNull"
| "squash (JBool b) = JBool b"
| "squash (JNumber n) = (if n = Infinity then JNull else JNumber n)"
| "squash (JString s) = JString s"
| "squash (JArray xs) = JArray (map squash xs)"
| "squash (JObject kvs) = JObject (map (map_prod id squash) kvs)"

definition reparse_stable :: "runtime \<Rightarrow> json \<Rightarrow> bool" where
  "reparse_stable R v \<longleftrightarrow> JSON_parse R (JSON_stringify R v) = Inr (squash v)"

text \<open>
  The facts about the built-in functions that the idempotence statements rest on:
  \<^item> \<open>atob\<close> inverts \<open>btoa\<close>, and refuses a text with a \<open>#\<close>;
  \<^item> \<open>decodeURIComponent\<close> inverts \<open>encodeURIComponent\<close>, whose result has no \<open>#\<close>;
  \<^item> the UTF-8 decoder, which drops a leading byte order mark, inverts
    \<open>unescape(encodeURIComponent(s))\<close> on a text that does not start with one;
  \<^item> parsing the text of a parsed value, also after \<open>ps\<close> has been set to a string,
    gives the value back, and no JSON text starts with a byte order mark;
  \<^item> \<open>toLowerCase\<close> leaves a text of ASCII characters without capitals as it is.
\<close>

definition base64_law :: "runtime \<Rightarrow> bool" where
  "base64_law R \<longleftrightarrow> (\<forall>s e. btoa R s = Inr e \<longrightarrow> atob R e = Inr s)"

definition atob_law :: "runtime \<Rightarrow> bool" where
  "atob_law R \<longleftrightarrow> (\<forall>s. jc CHR ''#'' \<in> set s \<longrightarrow> (\<exists>e. atob R s = Inl e))"

definition uri_law :: "runtime \<Rightarrow> bool" where
  "uri_law R \<longleftrightarrow>
     (\<forall>s e. encodeURIComponent R s = Inr e \<longrightarrow>
        decodeURIComponent R e = Inr s \<and> jc CHR ''#'' \<notin> set e)"

definition utf8_law :: "runtime \<Rightarrow> bool" where
  "utf8_law R \<longleftrightarrow>
     (\<forall>s e. encodeURIComponent R s = Inr e \<and> \<not> startsWith s [0xFEFF] \<longrightarrow>
        TextDecoder_decode R (bytes_of (unescape R e)) = s)"

definition json_law :: "runtime \<Rightarrow> bool" where
  "json_law R \<longleftrightarrow>
     (\<forall>s v. JSON_parse R s = Inr v \<longrightarrow> reparse_stable R v) \<and>
     (\<forall>kvs p. reparse_stable R (JObject kvs) \<longrightarrow>
        reparse_stable R (JObject (set_prop (js ''ps'') (JString p) kvs))) \<and>
     (\<forall>v. JSON_stringify R (squash v) = JSON_stringify R v) \<and>
     (\<forall>v. \<not> startsWith (JSON_stringify R v) [0xFEFF])"

definition lower_law :: "runtime \<Rightarrow> bool" where
  "lower_law R \<longleftrightarrow>
     (\<forall>s. (\<forall>c \<in> set s. c < 0x80 \<and> \<not> (jc CHR ''A'' \<le> c \<and> c \<le> jc CHR ''Z'')) \<longrightarrow>
        toLowerCase R s = s)"

section \<open>A runtime for the examples\<close>

text \<open>
  \<open>test_runtime\<close> instantiates the parameters for the closed examples below.  Its
  \<open>btoa\<close>, \<open>atob\<close> and \<open>unescape\<close> follow the definitions of the platform.  The others
  are restricted to a fragment and agree with the platform inside it: \<open>toLowerCase\<close>, the
  percent-coding and the decoder on ASCII text (a code unit or byte outside ASCII is refused
  or replaced), \<open>JSON\<close> on the texts \<open>null\<close>, \<open>[]\<close>, \<open>{}\<close> and \<open>{"ps":"..."}\<close> without
  escapes, and \<open>RegExp\<close> on alternatives of letters, digits, spaces, \<open>-\<close> and \<open>_\<close>.
\<close>

text \<open>Base64 after the forgiving-base64 decoding of the HTML standard.\<close>

definition base64_digit :: "nat \<Rightarrow> 16 word" where
  "base64_digit n =
     (if n < 26 then of_nat (65 + n)
      else if n < 52 then of_nat (71 + n)
      else if n < 62 then of_nat (n - 4)
      else if n = 62 then jc CHR ''+'' else jc CHR ''/'')"

definition base64_value :: "16 word \<Rightarrow> nat option" where
  "base64_value c =
     (let n = unat c in
      if 65 \<le> n \<and> n \<le> 90 then Some (n - 65)
      else if 97 \<le> n \<and> n \<le> 122 then Some (n - 71)
      else if 48 \<le> n \<and> n \<le> 57 then Some (n + 4)
      else if c = jc CHR ''+'' then Some 62
      else if c = jc CHR ''/'' then Some 63
      else None)"

fun base64_encode :: "nat list \<Rightarrow> jsstring" where
  "base64_encode [] = []"
| "base64_encode [a] =
     [base64_digit (a div 4), base64_digit (a mod 4 * 16), jc CHR ''='', jc CHR ''='']"
| "base64_encode [a, b] =
     [base64_digit (a div 4), base64_digit (a mod 4 * 16 + b div 16),
      base64_digit (b mod 16 * 4), jc CHR ''='']"
| "base64_encode (a # b # c # bs) =
     [base64_digit (a div 4), base64_digit (a mod 4 * 16 + b div 16),
      base64_digit (b mod 16 * 4 + c div 64), base64_digit (c mod 64)] @ base64_encode bs"

fun base64_decode :: "nat list \<Rightarrow> nat list" where
  "base64_decode (w # x # y # z # vs) =
     [w * 4 + x div 16, x mod 16 * 16 + y div 4, y mod 4 * 64 + z] @ base64_decode vs"
| "base64_decode [w, x, y] = [w * 4 + x div 16, x mod 16 * 16 + y div 4]"
| "base64_decode [w, x] = [w * 4 + x div 16]"
| "base64_decode vs = []"

definition is_ascii_ws :: "16 word \<Rightarrow> bool" where
  "is_ascii_ws c \<longleftrightarrow> c = 0x9 \<or> c = 0xA \<or> c = 0xC \<or> c = 0xD \<or> c = 0x20"

definition strip_padding :: "jsstring \<Rightarrow> jsstring" where
  "strip_padding d =
     (if length d mod 4 = 0 then
        (if d \<noteq> [] \<and> last d = jc CHR ''='' then
           (if butlast d \<noteq> [] \<and> last (butlast d) = jc CHR ''='' then butlast (butlast d)
            else butlast d)
         else d)
      else d)"

definition ref_btoa :: "jsstring \<Rightarrow> js_error + jsstring" where
  "ref_btoa s =
     (if list_all (\<lambda>c. c \<le> 0xFF) s then Inr (base64_encode (map unat s))
      else Inl InvalidCharacterError)"

definition ref_atob :: "jsstring \<Rightarrow> js_error + jsstring" where
  "ref_atob s =
     (let d = strip_padding (filter (\<lambda>c. \<not> is_ascii_ws c) s) in
      if length d mod 4 = 1 then Inl InvalidCharacterError
      else
        (case those (map base64_value d) of
           None \<Rightarrow> Inl InvalidCharacterError
         | Some vs \<Rightarrow> Inr (map of_nat (base64_decode vs))))"

text \<open>The six-bit groups and the padding of an encoding, for the proof that decoding inverts it.\<close>

fun sextets :: "nat list \<Rightarrow> nat list" where
  "sextets [] = []"
| "sextets [a] = [a div 4, a mod 4 * 16]"
| "sextets [a, b] = [a div 4, a mod 4 * 16 + b div 16, b mod 16 * 4]"
| "sextets (a # b # c # bs) =
     [a div 4, a mod 4 * 16 + b div 16, b mod 16 * 4 + c div 64, c mod 64] @ sextets bs"

fun padding :: "nat list \<Rightarrow> jsstring" where
  "padding [] = []"
| "padding [a] = [jc CHR ''='', jc CHR ''='']"
| "padding [a, b] = [jc CHR ''='']"
| "padding (a # b # c # bs) = padding bs"

text \<open>Percent-coding.\<close>

definition ascii_lower :: "16 word \<Rightarrow> 16 word" where
  "ascii_lower c = (if jc CHR ''A'' \<le> c \<and> c \<le> jc CHR ''Z'' then c + 0x20 else c)"

definition hex_digit :: "nat \<Rightarrow> 16 word" where
  "hex_digit n = (if n < 10 then of_nat (48 + n) else of_nat (55 + n))"

definition hex_value :: "16 word \<Rightarrow> nat option" where
  "hex_value c =
     (let n = unat c in
      if 48 \<le> n \<and> n \<le> 57 then Some (n - 48)
      else if 65 \<le> n \<and> n \<le> 70 then Some (n - 55)
      else if 97 \<le> n \<and> n \<le> 102 then Some (n - 87)
      else None)"

definition hex_number :: "jsstring \<Rightarrow> nat option" where
  "hex_number ds = map_option (foldl (\<lambda>n d. 16 * n + d) 0) (those (map hex_value ds))"

definition uri_unreserved :: "16 word \<Rightarrow> bool" where
  "uri_unreserved c \<longleftrightarrow>
     (jc CHR ''A'' \<le> c \<and> c \<le> jc CHR ''Z'') \<or> (jc CHR ''a'' \<le> c \<and> c \<le> jc CHR ''z'') \<or>
     (jc CHR ''0'' \<le> c \<and> c \<le> jc CHR ''9'') \<or> c \<in> set (js ''-_.!~*'()'')"

fun ascii_encodeURIComponent :: "jsstring \<Rightarrow> js_error + jsstring" where
  "ascii_encodeURIComponent [] = Inr []"
| "ascii_encodeURIComponent (c # cs) =
     (if uri_unreserved c then
        and_then (ascii_encodeURIComponent cs) (\<lambda>r. Inr (c # r))
      else if c < 0x80 then
        and_then (ascii_encodeURIComponent cs) (\<lambda>r.
          Inr (jc CHR ''%'' # hex_digit (unat c div 16) # hex_digit (unat c mod 16) # r))
      else Inl URIError)"

fun ascii_decodeURIComponent :: "jsstring \<Rightarrow> js_error + jsstring" where
  "ascii_decodeURIComponent [] = Inr []"
| "ascii_decodeURIComponent (c # cs) =
     (if c \<noteq> jc CHR ''%'' then and_then (ascii_decodeURIComponent cs) (\<lambda>r. Inr (c # r))
      else
        (case cs of
           h1 # h2 # rest \<Rightarrow>
             (case (hex_value h1, hex_value h2) of
                (Some a, Some b) \<Rightarrow>
                  if a < 8 then and_then (ascii_decodeURIComponent rest) (\<lambda>r. Inr (of_nat (16 * a + b) # r))
                  else Inl URIError
              | _ \<Rightarrow> Inl URIError)
         | _ \<Rightarrow> Inl URIError))"

fun ref_unescape :: "jsstring \<Rightarrow> jsstring" where
  "ref_unescape [] = []"
| "ref_unescape (c # cs) =
     (if c \<noteq> jc CHR ''%'' then c # ref_unescape cs
      else if startsWith cs (js ''u'') \<and> length cs \<ge> 5 \<and> hex_number (take 4 (drop 1 cs)) \<noteq> None
      then of_nat (the (hex_number (take 4 (drop 1 cs)))) # ref_unescape (drop 5 cs)
      else if length cs \<ge> 2 \<and> hex_number (take 2 cs) \<noteq> None
      then of_nat (the (hex_number (take 2 cs))) # ref_unescape (drop 2 cs)
      else c # ref_unescape cs)"

definition ascii_TextDecoder_decode :: "8 word list \<Rightarrow> jsstring" where
  "ascii_TextDecoder_decode bytes = map (\<lambda>b. if b < 0x80 then ucast b else 0xFFFD) bytes"

text \<open>The small JSON and the small regular expressions.\<close>

definition mini_JSON_stringify :: "json \<Rightarrow> jsstring" where
  "mini_JSON_stringify v =
     (case v of
        JObject kvs \<Rightarrow>
          (case map_of kvs (js ''ps'') of
             Some (JString p) \<Rightarrow> js ''{\"ps\":\"'' @ p @ js ''\"}''
           | _ \<Rightarrow> js ''{}'')
      | JArray xs \<Rightarrow> js ''[]''
      | _ \<Rightarrow> js ''null'')"

definition mini_JSON_parse :: "jsstring \<Rightarrow> js_error + json" where
  "mini_JSON_parse s =
     (if s = js ''null'' then Inr JNull
      else if s = js ''[]'' then Inr (JArray [])
      else if s = js ''{}'' then Inr (JObject [])
      else if startsWith s (js ''{\"ps\":\"'') \<and> startsWith (rev s) (js ''}\"'') \<and> length s \<ge> 9
      then Inr (JObject [(js ''ps'', JString (take (length s - 9) (drop 7 s)))])
      else Inl SyntaxError)"

fun contains :: "'a list \<Rightarrow> 'a list \<Rightarrow> bool" where
  "contains [] p = (p = [])"
| "contains (c # cs) p = (startsWith (c # cs) p \<or> contains cs p)"

definition mini_regex_char :: "16 word \<Rightarrow> bool" where
  "mini_regex_char c \<longleftrightarrow>
     (jc CHR ''A'' \<le> c \<and> c \<le> jc CHR ''Z'') \<or> (jc CHR ''a'' \<le> c \<and> c \<le> jc CHR ''z'') \<or>
     (jc CHR ''0'' \<le> c \<and> c \<le> jc CHR ''9'') \<or> c \<in> set (js '' -_|'')"

definition mini_RegExp_i :: "jsstring \<Rightarrow> js_error + (jsstring \<Rightarrow> bool)" where
  "mini_RegExp_i pattern =
     (if list_all mini_regex_char pattern then
        Inr (\<lambda>s. list_ex (\<lambda>alternative. contains (map ascii_lower s) (map ascii_lower alternative))
                   (split (jc CHR ''|'') pattern))
      else Inl SyntaxError)"

definition test_runtime :: runtime where
  "test_runtime =
     \<lparr> toLowerCase = map ascii_lower,
       atob = ref_atob,
       btoa = ref_btoa,
       TextDecoder_decode = ascii_TextDecoder_decode,
       encodeURIComponent = ascii_encodeURIComponent,
       decodeURIComponent = ascii_decodeURIComponent,
       unescape = ref_unescape,
       JSON_parse = mini_JSON_parse,
       JSON_stringify = mini_JSON_stringify,
       RegExp_i = mini_RegExp_i \<rparr>"

text \<open>Two HTTP sources, the default settings, and a network where only the first source answers.\<close>

definition example_config :: config where
  "example_config =
     \<lparr> FileName = js ''MiSub'', mytoken = js ''auto'', profileToken = js ''profiles'',
       subConverter = js ''url.v1.mk'', subConfig = [], prependSubName = True \<rparr>"

definition source_A :: misub where
  "source_A = \<lparr> misub_id = js ''a'', url = js ''https://a.example/sub'', name = js ''air'',
                 enabled = True, exclude = [] \<rparr>"

definition source_B :: misub where
  "source_B = \<lparr> misub_id = js ''b'', url = js ''https://b.example/sub'', name = js ''bee'',
                 enabled = True, exclude = [] \<rparr>"

definition example_fetch :: "misub \<Rightarrow> fetch_outcome" where
  "example_fetch sub =
     (if url sub = js ''https://a.example/sub''
      then Response True (Some (js ''ss://abc#MyNode\<newline>vless://nodeA2''))
      else Rejected)"

section \<open>Properties of scope resolution\<close>

lemma pathSegments_nonempty: "seg \<in> set (pathSegments pathname) \<Longrightarrow> seg \<noteq> []"
  by (simp add: pathSegments_def)

lemma profileIdentifier_token:
  assumes "profileIdentifier pathname = Some ident"
  obtains t where "request_token pathname q = Some t" and "t \<noteq> []"
proof -
  from assms obtain t p rest where segs: "pathSegments pathname = t # p # rest"
    by (auto simp: profileIdentifier_def split: list.splits)
  then have "t \<in> set (pathSegments pathname)" by simp
  then have "t \<noteq> []" by (rule pathSegments_nonempty)
  moreover have "request_token pathname q = Some t"
    using segs by (simp add: request_token_def)
  ultimately show thesis using that by blast
qed

text \<open>
  C3. For a request that carries a profile identifier: the response is the 403
  of an invalid profile token exactly when the request's token differs from the
  configured profile token; and when the token equals it while no profile matches
  the identifier (by custom identifier or primary id) or the first matching profile
  is disabled, the response is the 404 of a profile not found, not a 403.
\<close>

theorem profile_scope_403_404:
  assumes "profileIdentifier pathname = Some ident"
  shows "(resolve_scope cfg allProfiles allMisubs pathname q = Inl InvalidProfileToken
            \<longleftrightarrow> request_token pathname q \<noteq> Some (profileToken cfg))
       \<and> (request_token pathname q = Some (profileToken cfg) \<and>
            (find (profile_matches ident) allProfiles = None \<or>
             (\<exists>p. find (profile_matches ident) allProfiles = Some p \<and> \<not> profile_enabled p))
          \<longrightarrow> resolve_scope cfg allProfiles allMisubs pathname q = Inl ProfileNotFound
              \<and> status ProfileNotFound = 404)
       \<and> (\<forall>e. resolve_scope cfg allProfiles allMisubs pathname q = Inl e \<and> status e = 403
              \<longrightarrow> request_token pathname q \<noteq> Some (profileToken cfg))"
proof -
  obtain t where t: "request_token pathname q = Some t" "t \<noteq> []"
    using assms by (rule profileIdentifier_token)
  show ?thesis
    using assms t
    by (auto simp: resolve_scope_def falsy_token_def Let_def
             split: option.splits if_splits)
qed

theorem profile_scope_403_404_witness:
  "profileIdentifier (js ''/sub/profiles/work'') = Some (js ''work'')
   \<and> request_token (js ''/sub/profiles/work'') None = Some (js ''profiles'')
   \<and> resolve_scope
        \<lparr> FileName = js ''MiSub'', mytoken = js ''auto'', profileToken = js ''profiles'',
          subConverter = js ''url.v1.mk'', subConfig = [], prependSubName = True \<rparr>
        [\<lparr> profile_id = js ''p1'', customId = Some (js ''work''), profile_name = js ''Work'',
           profile_enabled = False, subscriptions = [], manualNodes = [],
           profile_subConverter = [], profile_subConfig = [] \<rparr>]
        [] (js ''/sub/profiles/work'') None = Inl ProfileNotFound"
  using profile_scope_403_404 [of "js ''/sub/profiles/work''" "js ''work''"
        "\<lparr> FileName = js ''MiSub'', mytoken = js ''auto'', profileToken = js ''profiles'',
          subConverter = js ''url.v1.mk'', subConfig = [], prependSubName = True \<rparr>"
        "[\<lparr> profile_id = js ''p1'', customId = Some (js ''work''), profile_name = js ''Work'',
           profile_enabled = False, subscriptions = [], manualNodes = [],
           profile_subConverter = [], profile_subConfig = [] \<rparr>]" "[]" None]
  by (simp add: profileIdentifier_def request_token_def pathSegments_def js_def jc_def profile_matches_def)

section \<open>Lists, lines and sets\<close>

lemma split_not_Nil [simp]: "split c s \<noteq> []"
  by (induction s) (auto split: list.splits)

lemma split_append: "split c (a @ c # b) = split c a @ split c b"
proof (induction a)
  case Nil
  then show ?case by simp
next
  case (Cons x a)
  then show ?case by (cases "split c a") (auto split: list.splits)
qed

lemma split_no_sep: "c \<notin> set s \<Longrightarrow> split c s = [s]"
  by (induction s) auto

lemma split_elems_no_sep: "x \<in> set (split c s) \<Longrightarrow> c \<notin> set x"
proof (induction s arbitrary: x)
  case Nil
  then show ?case by simp
next
  case (Cons a s)
  then show ?case by (cases "split c s") (auto split: if_splits)
qed

lemma foldl_Set_add:
  "foldl Set_add acc xs = acc @ first_seen (filter (\<lambda>x. x \<notin> set acc) xs)"
proof (induction xs arbitrary: acc)
  case Nil
  then show ?case by simp
next
  case (Cons x xs)
  show ?case
  proof (cases "x \<in> set acc")
    case True
    then show ?thesis using Cons [of acc] by (simp add: Set_add_def)
  next
    case False
    have "filter (\<lambda>y. y \<notin> set (acc @ [x])) xs = filter (\<lambda>y. y \<noteq> x) (filter (\<lambda>y. y \<notin> set acc) xs)"
      by (induction xs) auto
    then show ?thesis using False Cons [of "acc @ [x]"] by (simp add: Set_add_def)
  qed
qed

lemma new_Set_first_seen: "new_Set xs = first_seen xs"
  by (simp add: new_Set_def foldl_Set_add)

lemma set_first_seen: "set (first_seen xs) = set xs"
proof (induction xs rule: first_seen.induct)
  case 1
  then show ?case by simp
next
  case (2 x xs)
  then show ?case by auto
qed

lemma distinct_first_seen: "distinct (first_seen xs)"
proof (induction xs rule: first_seen.induct)
  case 1
  then show ?case by simp
next
  case (2 x xs)
  then show ?case by (simp add: set_first_seen)
qed

lemma trim_Nil [simp]: "trim [] = []"
  by (simp add: trim_def)

lemma trim_ends:
  assumes "trim s \<noteq> []"
  shows "\<not> is_ws (hd (trim s))" and "\<not> is_ws (last (trim s))"
proof -
  define u where "u = dropWhile is_ws s"
  define v where "v = dropWhile is_ws (rev u)"
  have t: "trim s = rev v" by (simp add: trim_def u_def v_def)
  with assms have v: "v \<noteq> []" by simp
  then have "\<not> is_ws (hd v)" unfolding v_def by (rule hd_dropWhile)
  then show "\<not> is_ws (last (trim s))" using v by (simp add: t last_rev)
  from v have u: "u \<noteq> []" by (auto simp: v_def)
  then have hu: "\<not> is_ws (hd u)" unfolding u_def by (rule hd_dropWhile)
  obtain w where "rev u = w @ v"
    unfolding v_def by (metis takeWhile_dropWhile_id)
  then have "last (rev u) = last v" using v by simp
  then have "hd u = last v" using u by (simp add: last_rev)
  then show "\<not> is_ws (hd (trim s))" using hu v by (simp add: t hd_rev)
qed

lemma trim_fixed: 
  assumes "s = [] \<or> (\<not> is_ws (hd s) \<and> \<not> is_ws (last s))"
  shows "trim s = s"
proof (cases "s = []")
  case True
  then show ?thesis by simp
next
  case False
  with assms have h: "\<not> is_ws (hd s)" and l: "\<not> is_ws (last s)" by auto
  from h False have "dropWhile is_ws s = s" by (cases s) auto
  moreover from l False have "dropWhile is_ws (rev s) = rev s"
    by (cases "rev s") (auto simp: last_rev hd_rev)
  ultimately show ?thesis by (simp add: trim_def)
qed

lemma trim_idem [simp]: "trim (trim s) = trim s"
  using trim_ends [of s] by (intro trim_fixed) auto

lemma set_trim: "set (trim s) \<subseteq> set s"
proof
  fix x assume "x \<in> set (trim s)"
  then have "x \<in> set (dropWhile is_ws (rev (dropWhile is_ws s)))" by (simp add: trim_def)
  then have "x \<in> set (rev (dropWhile is_ws s))" by (rule set_dropWhileD)
  then have "x \<in> set (dropWhile is_ws s)" by simp
  then show "x \<in> set s" by (rule set_dropWhileD)
qed

lemma trimmed_lines_append:
  "trimmed_lines (a @ 0xA # b) = trimmed_lines a @ trimmed_lines b"
  by (simp add: trimmed_lines_def split_append)

lemma trimmed_lines_Nil [simp]: "trimmed_lines [] = []"
  by (simp add: trimmed_lines_def)

lemma trimmed_lines_join:
  "trimmed_lines (join [0xA] cs) = concat (map trimmed_lines cs)"
  by (induction "[0xA :: 16 word]" cs rule: join.induct) (simp_all add: trimmed_lines_append)

lemma trimmed_lines_props:
  assumes "l \<in> set (trimmed_lines s)"
  shows "l \<noteq> []" and "trim l = l" and "0xA \<notin> set l"
proof -
  from assms obtain x where x: "x \<in> set (split 0xA s)" and l: "l = trim x" and ne: "l \<noteq> []"
    by (auto simp: trimmed_lines_def)
  show "l \<noteq> []" by (rule ne)
  show "trim l = l" by (simp add: l)
  from x have "0xA \<notin> set x" by (rule split_elems_no_sep)
  then show "0xA \<notin> set l" using set_trim [of x] l by auto
qed

lemma split_join_lines:
  assumes "ls \<noteq> []" and "\<forall>l \<in> set ls. c \<notin> set l"
  shows "split c (join [c] ls) = ls"
  using assms
proof (induction "[c]" ls rule: join.induct)
  case 1
  then show ?case by simp
next
  case (2 x)
  then show ?case by (simp add: split_no_sep)
next
  case (3 x y ys)
  then show ?case by (simp add: split_append split_no_sep)
qed

lemma and_then_Inr_iff:
  "and_then m f = Inr y \<longleftrightarrow> (\<exists>x. m = Inr x \<and> f x = Inr y)"
  by (cases m) (simp_all add: and_then_def)

lemma and_then_simps [simp]:
  "and_then (Inr x) f = f x" "and_then (Inl e) f = Inl e"
  by (simp_all add: and_then_def)

lemma uniqueNodes_eq:
  assumes "uniqueNodes R cfg fetch misubs = Inr ls"
  obtains manual where "manualNodes_lines R cfg misubs = Inr manual"
    and "ls = first_seen (concat (map trimmed_lines (manual @ processedSubContents R cfg fetch misubs)))"
proof -
  from assms obtain manual where m: "manualNodes_lines R cfg misubs = Inr manual"
    and ls: "ls = new_Set (trimmed_lines (join [0xA] manual @ [0xA] @
                    join [0xA] (processedSubContents R cfg fetch misubs)))"
    by (auto simp: uniqueNodes_def processedManualNodes_def and_then_Inr_iff Let_def
          trimmed_lines_def)
  have "ls = first_seen (concat (map trimmed_lines (manual @ processedSubContents R cfg fetch misubs)))"
    unfolding ls by (simp add: new_Set_first_seen trimmed_lines_append trimmed_lines_join)
  with m show thesis by (rule that)
qed

theorem unique_nodes_first_seen:
  assumes "generateCombinedNodeList R cfg fetch misubs prep = Inr out"
  shows "\<exists>manual ls.
           manualNodes_lines R cfg misubs = Inr manual
         \<and> ls = first_seen (concat (map trimmed_lines
                   (manual @ processedSubContents R cfg fetch misubs)))
         \<and> distinct ls
         \<and> out = (if prep \<noteq> [] then prep @ [0xA] @ join [0xA] ls else join [0xA] ls)"
proof -
  from assms obtain ls where u: "uniqueNodes R cfg fetch misubs = Inr ls"
    and out: "out = (if prep \<noteq> [] then prep @ [0xA] @ join [0xA] ls else join [0xA] ls)"
    by (auto simp: generateCombinedNodeList_def and_then_Inr_iff Let_def split: if_splits)
  from u obtain manual where "manualNodes_lines R cfg misubs = Inr manual"
    and "ls = first_seen (concat (map trimmed_lines (manual @ processedSubContents R cfg fetch misubs)))"
    by (rule uniqueNodes_eq)
  moreover from this have "distinct ls" by (simp add: distinct_first_seen)
  ultimately show ?thesis using out by blast
qed

lemma process_sub_failed:
  assumes "outcome = Rejected \<or> (\<exists>body. outcome = Response False body)"
  shows "process_sub R cfg s outcome = []"
  using assms by (auto simp: process_sub_def)

lemma uniqueNodes_drop_empty:
  assumes "is_http R s" and "process_sub R cfg s (fetch s) = []"
  shows "uniqueNodes R cfg fetch (xs @ s # ys) = uniqueNodes R cfg fetch (xs @ ys)"
proof -
  have m: "manualNodesContent R (xs @ s # ys) = manualNodesContent R (xs @ ys)"
    using assms(1) by (simp add: manualNodesContent_def)
  then have pm: "processedManualNodes R cfg (xs @ s # ys) = processedManualNodes R cfg (xs @ ys)"
    by (simp add: processedManualNodes_def manualNodes_lines_def)
  have c: "processedSubContents R cfg fetch (xs @ s # ys) =
           processedSubContents R cfg fetch xs @ [] # processedSubContents R cfg fetch ys"
    using assms by (simp add: processedSubContents_def)
  have c': "processedSubContents R cfg fetch (xs @ ys) =
           processedSubContents R cfg fetch xs @ processedSubContents R cfg fetch ys"
    by (simp add: processedSubContents_def)
  have "trimmed_lines (manual @ [0xA] @ join [0xA] (processedSubContents R cfg fetch (xs @ s # ys)))
      = trimmed_lines (manual @ [0xA] @ join [0xA] (processedSubContents R cfg fetch (xs @ ys)))"
    for manual
    by (simp add: trimmed_lines_append trimmed_lines_join c c')
  then show ?thesis
    by (simp add: uniqueNodes_def pm Let_def trimmed_lines_def)
qed

theorem failed_source_contributes_nothing:
  assumes "is_http R s"
    and "fetch s = Rejected \<or> (\<exists>body. fetch s = Response False body)"
  shows "process_sub R cfg s (fetch s) = []
       \<and> generateCombinedNodeList R cfg fetch (xs @ s # ys) prep
           = generateCombinedNodeList R cfg fetch (xs @ ys) prep"
proof -
  have e: "process_sub R cfg s (fetch s) = []"
    using assms(2) by (rule process_sub_failed)
  with assms(1) have "uniqueNodes R cfg fetch (xs @ s # ys) = uniqueNodes R cfg fetch (xs @ ys)"
    by (rule uniqueNodes_drop_empty)
  with e show ?thesis by (simp add: generateCombinedNodeList_def)
qed

theorem output_lines_trimmed:
  assumes "generateCombinedNodeList R cfg fetch misubs [] = Inr out"
  shows "(\<exists>ls. out = join [0xA] ls \<and> (\<forall>l \<in> set ls. l \<noteq> [] \<and> trim l = l \<and> 0xA \<notin> set l))
       \<and> (out = [] \<or> (\<forall>l \<in> set (split 0xA out). l \<noteq> [] \<and> trim l = l))"
proof -
  from assms obtain ls where u: "uniqueNodes R cfg fetch misubs = Inr ls"
    and out: "out = join [0xA] ls"
    by (auto simp: generateCombinedNodeList_def and_then_Inr_iff Let_def)
  from u obtain manual where
    "ls = first_seen (concat (map trimmed_lines (manual @ processedSubContents R cfg fetch misubs)))"
    by (rule uniqueNodes_eq)
  then have "\<forall>l \<in> set ls. \<exists>s. l \<in> set (trimmed_lines s)"
    by (auto simp: set_first_seen)
  then have p: "\<forall>l \<in> set ls. l \<noteq> [] \<and> trim l = l \<and> 0xA \<notin> set l"
    using trimmed_lines_props by blast
  have "out = [] \<or> split 0xA out = ls"
  proof (cases "ls = []")
    case True
    then show ?thesis by (simp add: out)
  next
    case False
    then have "split 0xA (join [0xA] ls) = ls" using p by (intro split_join_lines) auto
    then show ?thesis by (simp add: out)
  qed
  with p out show ?thesis by auto
qed

lemma base64_encode_sextets: "base64_encode bs = map base64_digit (sextets bs) @ padding bs"
  by (induction bs rule: base64_encode.induct) simp_all

lemma sextets_bound: "\<forall>b \<in> set bs. b < 256 \<Longrightarrow> v \<in> set (sextets bs) \<Longrightarrow> v < 64"
  by (induction bs rule: sextets.induct) auto

lemma base64_decode_sextets: "\<forall>b \<in> set bs. b < 256 \<Longrightarrow> base64_decode (sextets bs) = bs"
  by (induction bs rule: sextets.induct) auto

lemma unat_base64_digit:
  "v < 64 \<Longrightarrow> unat (base64_digit v) =
     (if v < 26 then 65 + v else if v < 52 then 71 + v else if v < 62 then v - 4
      else if v = 62 then 43 else 47)"
  by (simp add: base64_digit_def unat_of_nat jc_def del: of_nat_add of_nat_diff)

lemma base64_digit_props:
  assumes "v < 64"
  shows "base64_value (base64_digit v) = Some v"
    and "base64_digit v \<noteq> jc CHR ''=''"
    and "\<not> is_ascii_ws (base64_digit v)"
proof -
  note u = unat_base64_digit [OF assms]
  have e: "base64_digit v = jc CHR ''+'' \<longleftrightarrow> v = 62" "base64_digit v = jc CHR ''/'' \<longleftrightarrow> v = 63"
    using assms u by (auto simp: word_unat_eq_iff jc_def split: if_splits)
  show "base64_value (base64_digit v) = Some v"
    using assms u e by (auto simp: base64_value_def Let_def split: if_splits)
  have "unat (base64_digit v) \<notin> {61, 9, 10, 12, 13, 32}"
    using assms u by (auto split: if_splits)
  then show "base64_digit v \<noteq> jc CHR ''=''" "\<not> is_ascii_ws (base64_digit v)"
    by (auto simp: jc_def is_ascii_ws_def)
qed

lemma padding_cases: "padding bs = [] \<or> padding bs = [jc CHR ''=''] \<or> padding bs = [jc CHR ''='', jc CHR ''='']"
  by (induction bs rule: padding.induct) auto

lemma length_sextets_padding: "(length (sextets bs) + length (padding bs)) mod 4 = 0"
  by (induction bs rule: sextets.induct) auto

lemma length_sextets_mod: "length (sextets bs) mod 4 \<noteq> 1"
proof (induction bs rule: sextets.induct)
  case (4 a b c bs)
  then show ?case by (simp add: mod_Suc)
qed simp_all

lemma strip_padding_digits:
  assumes "\<forall>c \<in> set ds. c \<noteq> jc CHR ''=''"
    and "(length ds + length p) mod 4 = 0"
    and "p = [] \<or> p = [jc CHR ''=''] \<or> p = [jc CHR ''='', jc CHR ''='']"
  shows "strip_padding (ds @ p) = ds"
proof -
  have l: "ds \<noteq> [] \<Longrightarrow> last ds \<noteq> jc CHR ''=''"
    using assms(1) last_in_set by blast
  from assms(3) consider "p = []" | "p = [jc CHR ''='']" | "p = [jc CHR ''='', jc CHR ''='']"
    by blast
  then show ?thesis
  proof cases
    case 1
    then show ?thesis using l by (auto simp: strip_padding_def)
  next
    case 2
    then show ?thesis using l assms(2) by (auto simp: strip_padding_def butlast_append)
  next
    case 3
    then show ?thesis using l assms(2) by (auto simp: strip_padding_def butlast_append)
  qed
qed

lemma those_map_Some: "\<forall>x \<in> set xs. f x = Some (g x) \<Longrightarrow> those (map f xs) = Some (map g xs)"
  by (induction xs) auto

lemma those_map_None: "x \<in> set xs \<Longrightarrow> f x = None \<Longrightarrow> those (map f xs) = None"
  by (induction xs) (auto split: option.splits)

lemma ref_atob_encode:
  assumes "\<forall>b \<in> set bs. b < 256"
  shows "ref_atob (base64_encode bs) = Inr (map of_nat bs)"
proof -
  let ?ds = "map base64_digit (sextets bs)"
  have v: "\<forall>v \<in> set (sextets bs). v < 64" using assms sextets_bound by blast
  have ne: "\<forall>c \<in> set ?ds. c \<noteq> jc CHR ''=''" using v base64_digit_props(2) by auto
  have nw: "\<forall>c \<in> set ?ds. \<not> is_ascii_ws c" using v base64_digit_props(3) by auto
  have pw: "\<forall>c \<in> set (padding bs). \<not> is_ascii_ws c"
    using padding_cases [of bs] by (auto simp: is_ascii_ws_def jc_def)
  have f: "filter (\<lambda>c. \<not> is_ascii_ws c) (base64_encode bs) = ?ds @ padding bs"
    using nw pw by (simp add: base64_encode_sextets)
  have s: "strip_padding (?ds @ padding bs) = ?ds"
    using ne length_sextets_padding [of bs] padding_cases [of bs]
    by (intro strip_padding_digits) simp_all
  have t: "those (map (base64_value \<circ> base64_digit) (sextets bs)) = Some (sextets bs)"
    using those_map_Some [of "sextets bs" "base64_value \<circ> base64_digit" id] v
    by (simp add: base64_digit_props(1))
  show ?thesis
    using length_sextets_mod [of bs]
    by (simp add: ref_atob_def f s t base64_decode_sextets [OF assms])
qed

lemma ref_atob_btoa:
  assumes "ref_btoa s = Inr e"
  shows "ref_atob e = Inr s"
proof -
  from assms have a: "list_all (\<lambda>c. c \<le> 0xFF) s" and e: "e = base64_encode (map unat s)"
    by (auto simp: ref_btoa_def split: if_splits)
  from a have "\<forall>b \<in> set (map unat s). b < 256"
    by (auto simp: list_all_iff word_le_nat_alt)
  then have "ref_atob e = Inr (map of_nat (map unat s))"
    unfolding e by (rule ref_atob_encode)
  then show ?thesis by (simp add: comp_def)
qed

lemma set_strip_padding: "c \<in> set d \<Longrightarrow> c \<noteq> jc CHR ''='' \<Longrightarrow> c \<in> set (strip_padding d)"
proof -
  have b: "c \<in> set xs \<Longrightarrow> c \<noteq> last xs \<Longrightarrow> c \<in> set (butlast xs)" for xs :: jsstring
    by (induction xs) (auto split: if_splits)
  assume "c \<in> set d" "c \<noteq> jc CHR ''=''"
  moreover have "butlast xs = [] \<Longrightarrow> xs \<noteq> [] \<Longrightarrow> xs = [last xs]" for xs :: jsstring
    by (cases xs) (auto split: if_splits)
  ultimately show ?thesis
    by (auto simp: strip_padding_def intro!: b) (metis list.set_cases list.inject list.distinct(1))
qed

lemma ref_atob_hash:
  assumes "jc CHR ''#'' \<in> set s"
  shows "\<exists>e. ref_atob s = Inl e"
proof -
  let ?d = "strip_padding (filter (\<lambda>c. \<not> is_ascii_ws c) s)"
  have "jc CHR ''#'' \<in> set (filter (\<lambda>c. \<not> is_ascii_ws c) s)"
    using assms by (simp add: is_ascii_ws_def jc_def)
  then have "jc CHR ''#'' \<in> set ?d"
    by (rule set_strip_padding) (simp add: jc_def)
  moreover have "base64_value (jc CHR ''#'') = None"
    by (simp add: base64_value_def jc_def)
  ultimately have "those (map base64_value ?d) = None" by (rule those_map_None)
  then show ?thesis by (simp add: ref_atob_def Let_def)
qed

lemma lower_law_test: "lower_law test_runtime"
proof -
  have "map ascii_lower s = s" if "\<forall>c \<in> set s. c < 0x80 \<and> \<not> (jc CHR ''A'' \<le> c \<and> c \<le> jc CHR ''Z'')" for s
    using that by (induction s) (auto simp: ascii_lower_def)
  then show ?thesis by (simp add: lower_law_def test_runtime_def)
qed

lemma base64_law_test: "base64_law test_runtime"
  by (simp add: base64_law_def test_runtime_def ref_atob_btoa)

lemma atob_law_test: "atob_law test_runtime"
  by (simp add: atob_law_def test_runtime_def ref_atob_hash)

lemma unat_hex_digit: "n < 16 \<Longrightarrow> unat (hex_digit n) = (if n < 10 then 48 + n else 55 + n)"
  by (simp add: hex_digit_def unat_of_nat del: of_nat_add)

lemma hex_digit_props:
  assumes "n < 16"
  shows "hex_value (hex_digit n) = Some n"
    and "hex_digit n \<noteq> jc CHR ''#''"
    and "hex_digit n \<noteq> jc CHR ''u''"
proof -
  show "hex_value (hex_digit n) = Some n"
    using assms by (auto simp: hex_value_def Let_def unat_hex_digit)
  have "unat (hex_digit n) \<noteq> 35" "unat (hex_digit n) \<noteq> 117"
    using assms by (auto simp: unat_hex_digit)
  then show "hex_digit n \<noteq> jc CHR ''#''" "hex_digit n \<noteq> jc CHR ''u''"
    by (auto simp: jc_def)
qed

lemma uri_unreserved_props:
  assumes "uri_unreserved c"
  shows "c \<noteq> jc CHR ''%''" and "c \<noteq> jc CHR ''#''"
  using assms by (auto simp: uri_unreserved_def jc_def js_def)

lemma ascii_unit:
  fixes c :: "16 word"
  assumes "c < 0x80"
  shows "unat c div 16 < 8" and "unat c mod 16 < 16"
    and "of_nat (16 * (unat c div 16) + unat c mod 16) = c"
    and "unat c div 16 < 16"
proof -
  from assms have "unat c < 128" by (simp add: word_less_nat_alt)
  then show "unat c div 16 < 8" "unat c div 16 < 16" by auto
  show "unat c mod 16 < 16" by simp
  show "of_nat (16 * (unat c div 16) + unat c mod 16) = c" by simp
qed

lemma Inr_and_then:
  "and_then m f = Inr y \<Longrightarrow> (\<And>x. m = Inr x \<Longrightarrow> f x = Inr y \<Longrightarrow> P) \<Longrightarrow> P"
  by (cases m) (simp_all add: and_then_def)

lemma ref_uri_roundtrip:
  "ascii_encodeURIComponent s = Inr e \<Longrightarrow>
     ascii_decodeURIComponent e = Inr s \<and> jc CHR ''#'' \<notin> set e \<and> ref_unescape e = s
     \<and> (\<forall>c \<in> set s. c < 0x80)"
proof (induction s arbitrary: e)
  case Nil
  then show ?case by simp
next
  case (Cons c cs)
  show ?case
  proof (cases "uri_unreserved c")
    case True
    with Cons.prems obtain r where r: "ascii_encodeURIComponent cs = Inr r" and e: "e = c # r"
      by (auto elim!: Inr_and_then)
    from True have "c < 0x80"
      by (auto simp: uri_unreserved_def jc_def js_def word_le_nat_alt word_less_nat_alt)
    then show ?thesis
      using Cons.IH [OF r] uri_unreserved_props [OF True] by (simp add: e)
  next
    case False
    with Cons.prems have c: "c < 0x80" by (auto split: if_splits)
    with False Cons.prems obtain r where r: "ascii_encodeURIComponent cs = Inr r"
      and e: "e = jc CHR ''%'' # hex_digit (unat c div 16) # hex_digit (unat c mod 16) # r"
      by (auto elim!: Inr_and_then)
    have h: "hex_number [hex_digit (unat c div 16), hex_digit (unat c mod 16)]
               = Some (16 * (unat c div 16) + unat c mod 16)"
      using ascii_unit [OF c] by (simp add: hex_number_def hex_digit_props)
    have nu: "hex_digit (unat c div 16) \<noteq> jc CHR ''u''"
      using ascii_unit(4) [OF c] by (rule hex_digit_props(3))
    have nh: "hex_digit (unat c div 16) \<noteq> jc CHR ''#''" "hex_digit (unat c mod 16) \<noteq> jc CHR ''#''"
      using ascii_unit [OF c] by (simp_all add: hex_digit_props(2))
    show ?thesis
      using Cons.IH [OF r] ascii_unit [OF c] c h nu nh nh [symmetric]
      by (simp add: e hex_digit_props js_def) (simp add: jc_def)
  qed
qed

lemma uri_law_test: "uri_law test_runtime"
  using ref_uri_roundtrip by (simp add: uri_law_def test_runtime_def)

lemma utf8_law_test: "utf8_law test_runtime"
proof -
  have "ascii_TextDecoder_decode (bytes_of (ref_unescape e)) = s"
    if "ascii_encodeURIComponent s = Inr e" for s e
  proof -
    from ref_uri_roundtrip [OF that] have u: "ref_unescape e = s" and a: "\<forall>c \<in> set s. c < 0x80"
      by simp_all
    have "(if (ucast c :: 8 word) < 0x80 then ucast (ucast c :: 8 word) else 0xFFFD) = c"
      if "c < 0x80" for c :: "16 word"
    proof -
      from that have n: "unat c < 128" by (simp add: word_less_nat_alt)
      then have u: "unat (ucast c :: 8 word) = unat c"
        by (simp add: unsigned_ucast_eq [where ?'a = nat] take_bit_eq_mod)
      then have "unat (ucast (ucast c :: 8 word) :: 16 word) = unat c"
        by (simp add: unsigned_ucast_eq [where ?'a = nat] take_bit_eq_mod)
      then have "ucast (ucast c :: 8 word) = c"
        by (simp add: word_unat_eq_iff)
      then show ?thesis using n u by (simp add: word_less_nat_alt)
    qed
    with a have "map (\<lambda>b. if b < 0x80 then ucast b else 0xFFFD) (map ucast s :: 8 word list) = s"
      by (induction s) auto
    then show ?thesis by (simp add: u ascii_TextDecoder_decode_def bytes_of_def)
  qed
  then show ?thesis by (simp add: utf8_law_def test_runtime_def)
qed

lemma startsWith_iff: "startsWith s p \<longleftrightarrow> (\<exists>t. s = p @ t)"
  by (induction s p rule: startsWith.induct) auto

lemma startsWith_append [simp]: "startsWith (p @ t) p"
  by (simp add: startsWith_iff)

lemma startsWith_drop: "startsWith s p \<Longrightarrow> p @ drop (length p) s = s"
  by (auto simp: startsWith_iff)

lemma lastIndexOf_None_iff: "lastIndexOf c s = None \<longleftrightarrow> c \<notin> set s"
  by (induction s) (auto split: option.splits)

lemma lastIndexOf_append: "c \<notin> set b \<Longrightarrow> lastIndexOf c (a @ c # b) = Some (length a)"
proof (induction a)
  case Nil
  then have "lastIndexOf c b = None" by (simp add: lastIndexOf_None_iff)
  then show ?case by simp
next
  case (Cons x a)
  then show ?case by simp
qed

lemma squash_eq_JString: "squash v = JString s \<longleftrightarrow> v = JString s"
  by (cases v) auto

lemma map_of_squash:
  "map_of (map (map_prod id squash) kvs) k = map_option squash (map_of kvs k)"
  by (induction kvs) auto

lemma map_of_set_prop: "map_of (set_prop k v kvs) k = Some v"
  by (induction kvs) auto

lemma vmess_linkE:
  assumes "vmess_link R J = Inr r"
  obtains e b where "encodeURIComponent R J = Inr e" and "btoa R (unescape R e) = Inr b"
    and "r = js ''vmess://'' @ b"
  using assms by (auto simp: vmess_link_def elim!: Inr_and_then)

lemma vmess_config_of_link:
  assumes "base64_law R" and "utf8_law R" and "json_law R"
    and link: "vmess_link R (JSON_stringify R v) = Inr r"
    and stable: "reparse_stable R v"
  shows "vmess_config R r = Inr (squash v)"
proof -
  from link obtain e b where e: "encodeURIComponent R (JSON_stringify R v) = Inr e"
    and b: "btoa R (unescape R e) = Inr b" and r: "r = js ''vmess://'' @ b"
    by (rule vmess_linkE)
  from b \<open>base64_law R\<close> have "atob R b = Inr (unescape R e)" by (simp add: base64_law_def)
  moreover from \<open>json_law R\<close> have "\<not> startsWith (JSON_stringify R v) [0xFEFF]"
    by (simp add: json_law_def)
  with e \<open>utf8_law R\<close> have "TextDecoder_decode R (bytes_of (unescape R e)) = JSON_stringify R v"
    by (simp add: utf8_law_def)
  ultimately show ?thesis
    using stable by (simp add: vmess_config_def r reparse_stable_def)
qed

lemma vmess_config_stable:
  assumes "json_law R" and "vmess_config R l = Inr v"
  shows "reparse_stable R v"
  using assms by (auto simp: vmess_config_def json_law_def Let_def elim!: Inr_and_then)

theorem normalize_idempotent:
  assumes "base64_law R" and "utf8_law R" and "json_law R"
  shows "normalizeVmessLink R (normalizeVmessLink R x) = normalizeVmessLink R x
       \<and> (\<not> startsWith x (js ''vmess://'') \<longrightarrow> normalizeVmessLink R x = x)"
proof (cases "startsWith x (js ''vmess://'')")
  case False
  then show ?thesis by (simp add: normalizeVmessLink_def)
next
  case True
  show ?thesis
  proof (cases "and_then (vmess_config R x) (\<lambda>v. vmess_link R (JSON_stringify R v))")
    case (Inl e)
    then show ?thesis using True by (simp add: normalizeVmessLink_def)
  next
    case (Inr r)
    then obtain v where v: "vmess_config R x = Inr v"
      and l: "vmess_link R (JSON_stringify R v) = Inr r"
      by (auto elim!: Inr_and_then)
    from assms(3) v have "reparse_stable R v" by (rule vmess_config_stable)
    with assms l have c: "vmess_config R r = Inr (squash v)" by (rule vmess_config_of_link)
    from assms(3) have "JSON_stringify R (squash v) = JSON_stringify R v"
      by (simp add: json_law_def)
    with c l have "and_then (vmess_config R r) (\<lambda>v. vmess_link R (JSON_stringify R v)) = Inr r"
      by simp
    moreover from l have "startsWith r (js ''vmess://'')" by (auto elim!: vmess_linkE)
    moreover have "normalizeVmessLink R x = r" using True Inr by (simp add: normalizeVmessLink_def)
    ultimately show ?thesis using True by (simp add: normalizeVmessLink_def)
  qed
qed

lemma appendToFragment_again:
  assumes "uri_law R" and "p \<noteq> []" and "appendToFragment R l p = Inr r"
  shows "r = l \<or> (jc CHR ''#'' \<in> set r \<and> appendToFragment R r p = Inr r)"
proof -
  define orig where "orig = (case lastIndexOf (jc CHR ''#'') l of
      Some i \<Rightarrow> decodeURIComponent R (drop (i + 1) l) | None \<Rightarrow> Inr [])"
  define base where "base = (case lastIndexOf (jc CHR ''#'') l of Some i \<Rightarrow> take i l | None \<Rightarrow> l)"
  from assms(3) obtain n where n: "orig = Inr n"
    and rest: "(if startsWith n p then Inr l
                else and_then (encodeURIComponent R (if n \<noteq> [] then p @ js '' - '' @ n else p))
                       (\<lambda>encoded. Inr (base @ [jc CHR ''#''] @ encoded))) = Inr r"
    unfolding appendToFragment_def orig_def base_def Let_def by (auto elim!: Inr_and_then)
  show ?thesis
  proof (cases "startsWith n p")
    case True
    with rest show ?thesis by simp
  next
    case False
    define newName where "newName = (if n \<noteq> [] then p @ js '' - '' @ n else p)"
    from False rest obtain enc where enc: "encodeURIComponent R newName = Inr enc"
      and r: "r = base @ jc CHR ''#'' # enc"
      unfolding newName_def by (auto elim!: Inr_and_then)
    from enc assms(1) have dec: "decodeURIComponent R enc = Inr newName"
      and nohash: "jc CHR ''#'' \<notin> set enc"
      by (auto simp: uri_law_def)
    have sw: "startsWith newName p" by (simp add: newName_def startsWith_iff)
    from nohash have "lastIndexOf (jc CHR ''#'') r = Some (length base)"
      unfolding r by (rule lastIndexOf_append)
    then have "appendToFragment R r p = Inr r"
      using dec sw by (simp add: appendToFragment_def r)
    then show ?thesis by (simp add: r)
  qed
qed

lemma vmess_no_hash: "jc CHR ''#'' \<notin> set (js ''vmess://'')"
  by (simp add: js_def jc_def)

lemma prepend_with_hash:
  assumes "atob_law R" and "jc CHR ''#'' \<in> set l" and "p \<noteq> []"
  shows "prependNodeName R l p = appendToFragment R l p"
proof (cases "startsWith l (js ''vmess://'')")
  case False
  then show ?thesis using assms(3) by (simp add: prependNodeName_def)
next
  case True
  then obtain t where l: "l = js ''vmess://'' @ t" by (auto simp: startsWith_iff)
  with assms(2) vmess_no_hash have "jc CHR ''#'' \<in> set t" by auto
  with assms(1) obtain e where "atob R t = Inl e" by (auto simp: atob_law_def)
  then have "vmess_config R l = Inl e" by (simp add: vmess_config_def l)
  then have "prepend_vmess R l p = Inl e" by (simp add: prepend_vmess_def)
  then show ?thesis using True assms(3) by (simp add: prependNodeName_def)
qed

lemma startsWith_new_ps: "ps_startsWith v p = Inr b \<Longrightarrow> startsWith (new_ps v p) p"
  by (cases v) (auto simp: startsWith_iff)

lemma prepend_vmess_again:
  assumes "base64_law R" and "utf8_law R" and "json_law R" and "p \<noteq> []"
    and "prepend_vmess R l p = Inr r"
  shows "startsWith r (js ''vmess://'') \<and> prepend_vmess R r p = Inr r"
proof -
  from assms(5) obtain v ps starts v' where v: "vmess_config R l = Inr v"
    and ps: "get_ps v = Inr ps"
    and starts: "ps_startsWith (or_empty ps) p = Inr starts"
    and v': "(if \<not> starts then assign_ps v (new_ps (or_empty ps) p) else Inr v) = Inr v'"
    and link: "vmess_link R (JSON_stringify R v') = Inr r"
    unfolding prepend_vmess_def Let_def by (auto elim!: Inr_and_then)
  from assms(3) v have sv: "reparse_stable R v" by (rule vmess_config_stable)
  have sq: "JSON_stringify R (squash v') = JSON_stringify R v'"
    using assms(3) by (simp add: json_law_def)
  have goal: "prepend_vmess R r p = Inr r"
    if "reparse_stable R v'" and "get_ps (squash v') = Inr ps'"
      and "ps_startsWith (or_empty ps') p = Inr starts'"
      and "(if \<not> starts' then assign_ps (squash v') (new_ps (or_empty ps') p) else Inr (squash v'))
             = Inr (squash v')" for ps' starts'
  proof -
    from assms(1,2,3) link that(1) have "vmess_config R r = Inr (squash v')"
      by (rule vmess_config_of_link)
    then show ?thesis
      using that(2,3,4) link sq by (simp add: prepend_vmess_def Let_def)
  qed
  have "prepend_vmess R r p = Inr r"
  proof (cases v)
    case (JObject kvs)
    show ?thesis
    proof (cases starts)
      case True
      with v' have [simp]: "v' = v" by simp
      from starts True obtain n where n: "or_empty ps = JString n" and sn: "startsWith n p"
        by (cases "or_empty ps") auto
      from sn assms(4) have "n \<noteq> []" by (auto simp: startsWith_iff)
      with n have "ps = Some (JString n)"
        by (auto simp: or_empty_def split: option.splits if_splits)
      with ps JObject have "map_of kvs (js ''ps'') = Some (JString n)" by simp
      then have "get_ps (squash v) = Inr (Some (JString n))"
        by (simp add: JObject map_of_squash)
      moreover have "ps_startsWith (or_empty (Some (JString n))) p = Inr True"
        using sn \<open>n \<noteq> []\<close> by (simp add: or_empty_def)
      ultimately show ?thesis using sv by (intro goal) auto
    next
      case False
      define np where "np = new_ps (or_empty ps) p"
      from starts have sn: "startsWith np p" unfolding np_def by (rule startsWith_new_ps)
      with assms(4) have "np \<noteq> []" by (auto simp: startsWith_iff)
      from False v' JObject have v'_eq: "v' = JObject (set_prop (js ''ps'') (JString np) kvs)"
        by (simp add: np_def)
      from assms(3) sv have st: "reparse_stable R v'"
        unfolding v'_eq JObject by (simp add: json_law_def)
      have "get_ps (squash v') = Inr (Some (JString np))"
        by (simp add: v'_eq map_of_squash map_of_set_prop)
      moreover have "ps_startsWith (or_empty (Some (JString np))) p = Inr True"
        using sn \<open>np \<noteq> []\<close> by (simp add: or_empty_def)
      ultimately show ?thesis using st by (intro goal) auto
    qed
  next
    case (JArray xs)
    with ps have "ps = None" by simp
    with starts assms(4) have "\<not> starts" by (cases p) (auto simp: or_empty_def)
    with v' JArray have [simp]: "v' = v" by simp
    have "get_ps (squash v) = Inr None" by (simp add: JArray)
    moreover have "ps_startsWith (or_empty None) p = Inr False"
      using assms(4) by (cases p) (auto simp: or_empty_def)
    moreover have "assign_ps (squash v) (new_ps (or_empty None) p) = Inr (squash v)"
      by (simp add: JArray)
    ultimately show ?thesis using sv by (intro goal) auto
  next
    case JNull
    with ps show ?thesis by simp
  next
    case (JBool b)
    with ps have "ps = None" by simp
    with starts assms(4) have "\<not> starts" by (cases p) (auto simp: or_empty_def)
    with v' JBool show ?thesis by simp
  next
    case (JNumber n)
    with ps have "ps = None" by simp
    with starts assms(4) have "\<not> starts" by (cases p) (auto simp: or_empty_def)
    with v' JNumber show ?thesis by simp
  next
    case (JString s)
    with ps have "ps = None" by simp
    with starts assms(4) have "\<not> starts" by (cases p) (auto simp: or_empty_def)
    with v' JString show ?thesis by simp
  qed
  moreover from link have "startsWith r (js ''vmess://'')" by (auto elim!: vmess_linkE)
  ultimately show ?thesis by simp
qed

lemma prependNodeName_again:
  assumes "base64_law R" and "atob_law R" and "uri_law R" and "utf8_law R" and "json_law R"
    and "p \<noteq> []" and "prependNodeName R l p = Inr r"
  shows "prependNodeName R r p = Inr r"
proof -
  have fallback: "prependNodeName R r p = Inr r" if "appendToFragment R l p = Inr r"
  proof -
    from assms(3,6) that
    have "r = l \<or> (jc CHR ''#'' \<in> set r \<and> appendToFragment R r p = Inr r)"
      by (rule appendToFragment_again)
    then show ?thesis
    proof
      assume "r = l"
      with assms(7) show ?thesis by simp
    next
      assume "jc CHR ''#'' \<in> set r \<and> appendToFragment R r p = Inr r"
      then show ?thesis using prepend_with_hash [OF assms(2) _ assms(6), of r] by simp
    qed
  qed
  show ?thesis
  proof (cases "startsWith l (js ''vmess://'')")
    case False
    with assms(6,7) have "appendToFragment R l p = Inr r" by (simp add: prependNodeName_def)
    then show ?thesis by (rule fallback)
  next
    case True
    show ?thesis
    proof (cases "prepend_vmess R l p")
      case (Inl e)
      with True assms(6,7) have "appendToFragment R l p = Inr r" by (simp add: prependNodeName_def)
      then show ?thesis by (rule fallback)
    next
      case (Inr r')
      with True assms(6,7) have "r' = r" by (simp add: prependNodeName_def)
      with Inr assms(1,4,5,6) have "startsWith r (js ''vmess://'') \<and> prepend_vmess R r p = Inr r"
        by (intro prepend_vmess_again) auto
      then show ?thesis using assms(6) by (simp add: prependNodeName_def)
    qed
  qed
qed

theorem prepend_idempotent:
  assumes "base64_law R" and "atob_law R" and "uri_law R" and "utf8_law R" and "json_law R"
    and "prefix \<noteq> []"
  shows "and_then (prependNodeName R line prefix) (\<lambda>line'. prependNodeName R line' prefix)
           = prependNodeName R line prefix
       \<and> (\<forall>n r. display_name R line = Some n \<and> startsWith n prefix
              \<and> prependNodeName R line prefix = Inr r
              \<and> (startsWith line (js ''vmess://'') \<longrightarrow> prepend_vmess R line prefix = Inr r)
            \<longrightarrow> display_name R r = Some n)"
proof
  show "and_then (prependNodeName R line prefix) (\<lambda>line'. prependNodeName R line' prefix)
           = prependNodeName R line prefix"
  proof (cases "prependNodeName R line prefix")
    case (Inl e)
    then show ?thesis by simp
  next
    case (Inr r)
    with assms have "prependNodeName R r prefix = Inr r" by (intro prependNodeName_again)
    with Inr show ?thesis by simp
  qed
next
  show "\<forall>n r. display_name R line = Some n \<and> startsWith n prefix
              \<and> prependNodeName R line prefix = Inr r
              \<and> (startsWith line (js ''vmess://'') \<longrightarrow> prepend_vmess R line prefix = Inr r)
            \<longrightarrow> display_name R r = Some n"
  proof (intro allI impI, elim conjE)
    fix n r
    assume dn: "display_name R line = Some n" and sn: "startsWith n prefix"
      and pr: "prependNodeName R line prefix = Inr r"
      and vm: "startsWith line (js ''vmess://'') \<longrightarrow> prepend_vmess R line prefix = Inr r"
    from sn assms(6) have nn: "n \<noteq> []" by (auto simp: startsWith_iff)
    show "display_name R r = Some n"
    proof (cases "startsWith line (js ''vmess://'')")
      case False
      with dn obtain i where i: "lastIndexOf (jc CHR ''#'') line = Some i"
        and d: "decodeURIComponent R (drop (i + 1) line) = Inr n"
        by (auto simp: display_name_def split: option.splits sum.splits)
      with sn have "appendToFragment R line prefix = Inr line"
        by (simp add: appendToFragment_def)
      with False pr assms(6) have "r = line" by (simp add: prependNodeName_def)
      with dn show ?thesis by simp
    next
      case True
      with vm have pv: "prepend_vmess R line prefix = Inr r" by simp
      from True dn obtain v where v: "vmess_config R line = Inr v"
        and ps: "get_ps v = Inr (Some (JString n))"
        by (auto simp: display_name_def split: option.splits sum.splits json.splits)
      from ps obtain kvs where kvs: "v = JObject kvs" by (cases v) auto
      have oe: "or_empty (Some (JString n)) = JString n" using nn by (simp add: or_empty_def)
      from pv v ps sn have link: "vmess_link R (JSON_stringify R v) = Inr r"
        by (simp add: prepend_vmess_def oe)
      from assms(5) v have "reparse_stable R v" by (rule vmess_config_stable)
      with assms(1,4,5) link have c: "vmess_config R r = Inr (squash v)"
        by (rule vmess_config_of_link)
      from ps kvs have "get_ps (squash v) = Inr (Some (JString n))"
        by (simp add: map_of_squash)
      moreover from link have "startsWith r (js ''vmess://'')" by (auto elim!: vmess_linkE)
      ultimately show ?thesis using c by (simp add: display_name_def)
    qed
  qed
qed

lemma mini_parse_ps:
  "mini_JSON_parse (js ''{\"ps\":\"'' @ m @ js ''\"}'') = Inr (JObject [(js ''ps'', JString m)])"
  by (simp add: mini_JSON_parse_def js_def jc_def)

lemma mini_parse_cases:
  assumes "mini_JSON_parse s = Inr v"
  shows "v = JNull \<or> v = JArray [] \<or> v = JObject [] \<or> (\<exists>m. v = JObject [(js ''ps'', JString m)])"
  using assms by (auto simp: mini_JSON_parse_def split: if_splits)

lemma mini_stable_small:
  "reparse_stable test_runtime JNull" "reparse_stable test_runtime (JArray [])"
  "reparse_stable test_runtime (JObject [])"
  "reparse_stable test_runtime (JObject [(js ''ps'', JString m)])"
  by (simp_all add: reparse_stable_def test_runtime_def mini_JSON_stringify_def mini_parse_ps)
     (simp_all add: mini_JSON_parse_def js_def jc_def)

lemma mini_stable_obj:
  assumes "reparse_stable test_runtime (JObject kvs)"
  shows "kvs = [] \<or> (\<exists>m. kvs = [(js ''ps'', JString m)])"
proof -
  from assms have p: "mini_JSON_parse (mini_JSON_stringify (JObject kvs))
      = Inr (JObject (map (map_prod id squash) kvs))"
    by (simp add: reparse_stable_def test_runtime_def)
  from mini_parse_cases [OF p]
  have "map (map_prod id squash) kvs = [] \<or>
        (\<exists>m. map (map_prod id squash) kvs = [(js ''ps'', JString m)])" by auto
  then show ?thesis
  proof
    assume "map (map_prod id squash) kvs = []"
    then show ?thesis by simp
  next
    assume "\<exists>m. map (map_prod id squash) kvs = [(js ''ps'', JString m)]"
    then obtain m k v where "kvs = [(k, v)]" "k = js ''ps''" "squash v = JString m"
      by (cases kvs) auto
    then show ?thesis by (auto simp: squash_eq_JString)
  qed
qed

lemma mini_stringify_squash: "mini_JSON_stringify (squash v) = mini_JSON_stringify v"
proof (cases v)
  case (JObject kvs)
  show ?thesis
  proof (cases "map_of kvs (js ''ps'')")
    case None
    then show ?thesis by (simp add: JObject mini_JSON_stringify_def map_of_squash)
  next
    case (Some w)
    then show ?thesis
      by (cases w) (simp_all add: JObject mini_JSON_stringify_def map_of_squash)
  qed
qed (simp_all add: mini_JSON_stringify_def)

lemma mini_stringify_no_bom: "\<not> startsWith (mini_JSON_stringify v) [0xFEFF]"
  by (auto simp: mini_JSON_stringify_def js_def jc_def split: json.splits option.splits)

lemma json_law_test: "json_law test_runtime"
proof -
  have a: "reparse_stable test_runtime v" if "mini_JSON_parse s = Inr v" for s v
    using mini_parse_cases [OF that] mini_stable_small by auto
  have b: "reparse_stable test_runtime (JObject (set_prop (js ''ps'') (JString p) kvs))"
    if "reparse_stable test_runtime (JObject kvs)" for kvs p
    using mini_stable_obj [OF that] mini_stable_small(4) by auto
  show ?thesis
    using a b mini_stringify_squash mini_stringify_no_bom
    by (simp add: json_law_def) (simp add: test_runtime_def)
qed

theorem normalize_idempotent_witness:
  "base64_law test_runtime \<and> utf8_law test_runtime \<and> json_law test_runtime
   \<and> normalizeVmessLink test_runtime (js ''vmess://eyJwcyI6IlVTIn0'') = js ''vmess://eyJwcyI6IlVTIn0=''
   \<and> normalizeVmessLink test_runtime (js ''vmess://eyJwcyI6IlVTIn0='') = js ''vmess://eyJwcyI6IlVTIn0=''
   \<and> \<not> startsWith (js ''ss://abc#MyNode'') (js ''vmess://'')
   \<and> normalizeVmessLink test_runtime (js ''ss://abc#MyNode'') = js ''ss://abc#MyNode''"
proof -
  have n: "normalizeVmessLink test_runtime (js ''vmess://eyJwcyI6IlVTIn0'') = js ''vmess://eyJwcyI6IlVTIn0=''"
    by code_simp
  have s: "\<not> startsWith (js ''ss://abc#MyNode'') (js ''vmess://'')"
    by code_simp
  show ?thesis
    using n s
      normalize_idempotent [OF base64_law_test utf8_law_test json_law_test, of "js ''vmess://eyJwcyI6IlVTIn0''"]
      normalize_idempotent [OF base64_law_test utf8_law_test json_law_test, of "js ''ss://abc#MyNode''"]
      base64_law_test utf8_law_test json_law_test
    by simp
qed

theorem prepend_idempotent_witness:
  "base64_law test_runtime \<and> atob_law test_runtime \<and> uri_law test_runtime
   \<and> utf8_law test_runtime \<and> json_law test_runtime \<and> js ''air'' \<noteq> []
   \<and> prependNodeName test_runtime (js ''ss://abc#MyNode'') (js ''air'')
        = Inr (js ''ss://abc#air%20-%20MyNode'')
   \<and> and_then (prependNodeName test_runtime (js ''ss://abc#MyNode'') (js ''air''))
         (\<lambda>line'. prependNodeName test_runtime line' (js ''air''))
        = Inr (js ''ss://abc#air%20-%20MyNode'')
   \<and> display_name test_runtime (js ''vmess://eyJwcyI6ImFpciAtIFVTIn0'') = Some (js ''air - US'')
   \<and> startsWith (js ''air - US'') (js ''air'')
   \<and> prepend_vmess test_runtime (js ''vmess://eyJwcyI6ImFpciAtIFVTIn0'') (js ''air'')
        = Inr (js ''vmess://eyJwcyI6ImFpciAtIFVTIn0='')
   \<and> display_name test_runtime (js ''vmess://eyJwcyI6ImFpciAtIFVTIn0='') = Some (js ''air - US'')"
proof -
  have ne: "js ''air'' \<noteq> []" by (simp add: js_def)
  note T = prepend_idempotent [OF base64_law_test atob_law_test uri_law_test utf8_law_test
        json_law_test ne]
  have p: "prependNodeName test_runtime (js ''ss://abc#MyNode'') (js ''air'')
        = Inr (js ''ss://abc#air%20-%20MyNode'')"
    by code_simp
  have i: "and_then (prependNodeName test_runtime (js ''ss://abc#MyNode'') (js ''air''))
         (\<lambda>line'. prependNodeName test_runtime line' (js ''air''))
        = Inr (js ''ss://abc#air%20-%20MyNode'')"
    using T [of "js ''ss://abc#MyNode''", THEN conjunct1] p by simp
  have d: "display_name test_runtime (js ''vmess://eyJwcyI6ImFpciAtIFVTIn0'') = Some (js ''air - US'')"
    by code_simp
  have sw: "startsWith (js ''air - US'') (js ''air'')" by code_simp
  have pv: "prepend_vmess test_runtime (js ''vmess://eyJwcyI6ImFpciAtIFVTIn0'') (js ''air'')
        = Inr (js ''vmess://eyJwcyI6ImFpciAtIFVTIn0='')"
    by code_simp
  have pn: "prependNodeName test_runtime (js ''vmess://eyJwcyI6ImFpciAtIFVTIn0'') (js ''air'')
        = Inr (js ''vmess://eyJwcyI6ImFpciAtIFVTIn0='')"
    by code_simp
  have d': "display_name test_runtime (js ''vmess://eyJwcyI6ImFpciAtIFVTIn0='') = Some (js ''air - US'')"
    using T [of "js ''vmess://eyJwcyI6ImFpciAtIFVTIn0''", THEN conjunct2] d sw pv pn by blast
  show ?thesis
    using ne p i d sw pv d' base64_law_test atob_law_test uri_law_test utf8_law_test json_law_test
    by blast
qed

end
